theory Spec2Isabelle
  imports Main "HOL-Library.Word" "HOL-Library.AList"
begin

unbundle bit_operations_syntax

section \<open>Data model of \<open>app_initializer.hpp\<close>\<close>

text \<open>
  \<open>uint8_t\<close> and \<open>uint32_t\<close> are words of that width.  \<open>size_t\<close> positions and
  lengths are natural numbers: on the LP64 targets of the code \<open>size_t\<close> has 64 bits,
  every position the loops reach is below the buffer length plus \<open>2 ^ 33\<close>, and so the
  arithmetic on them never wraps.  The conversions between the two widths are written
  out (\<open>unat\<close>, \<open>of_nat\<close>) where the source converts.
\<close>

type_synonym byte = "8 word"
type_synonym u32 = "32 word"

text \<open>\<open>enum class CommandType : uint8_t\<close>.  A \<open>static_cast\<close> from any byte is a value
  of the enumeration, so a command type is the byte itself and the enumerators are
  the four named bytes.\<close>

type_synonym CommandType = byte

definition APB_WRITE :: CommandType where "APB_WRITE = 0x01"
definition VRD_INFO :: CommandType where "VRD_INFO = 0x02"
definition PM_BINARY :: CommandType where "PM_BINARY = 0x03"
definition DMA_WRITE :: CommandType where "DMA_WRITE = 0x04"

text \<open>\<open>struct VrdInfo\<close>; the field \<open>size\<close> is \<open>size_v\<close> here.\<close>

record VrdInfo =
  name :: string
  size_v :: u32
  dst_addr :: u32
  data :: "byte list"
  is_loaded :: bool

text \<open>
  \<open>std::unordered_map<std::string, VrdInfo>\<close> is an association list with one pair per
  key.  The list order stands for the iteration order of the container, which the
  language leaves open; \<open>find\<close> is \<^const>\<open>map_of\<close>, and both \<open>vrd_map_[name] = v\<close> and
  the assignment through an iterator are \<^const>\<open>AList.update\<close> (the pair is replaced
  where it stands, a new key is added).
\<close>

type_synonym vrd_map = "(string \<times> VrdInfo) list"

record AppInitializer =
  binary_sequence :: "byte list"
  vrd_map :: vrd_map

text \<open>
  Every \<open>throw\<close> is a value.  \<open>OutOfBounds\<close> is no exception of the program: it marks
  a read outside \<open>binary_sequence_\<close> (\<open>operator[]\<close>, the \<open>std::string\<close> constructor and
  the iterator range of \<open>copy_bytes\<close> do not check), which is undefined behaviour in
  C++.  \<open>MapAtOutOfRange\<close> is the \<open>std::out_of_range\<close> of \<open>unordered_map::at\<close>.
\<close>

datatype error =
    FileOpenFailed
  | VrdNotFound string
  | SizeMismatch string nat nat
  | VrdNotLoaded string
  | UnknownCommandType nat
  | MapAtOutOfRange
  | OutOfBounds

section \<open>Byte access\<close>

definition read_uint32 :: "byte list \<Rightarrow> nat \<Rightarrow> error + u32" where
  "read_uint32 buf pos =
     (if pos + 3 < length buf
      then Inr ((ucast (buf ! pos) :: u32)
                OR push_bit 8 (ucast (buf ! (pos + 1)) :: u32)
                OR push_bit 16 (ucast (buf ! (pos + 2)) :: u32)
                OR push_bit 24 (ucast (buf ! (pos + 3)) :: u32))
      else Inl OutOfBounds)"

definition append_uint32 :: "byte list \<Rightarrow> u32 \<Rightarrow> byte list" where
  "append_uint32 vec v =
     vec @ [ucast v, ucast (drop_bit 8 v), ucast (drop_bit 16 v), ucast (drop_bit 24 v)]"

definition copy_bytes :: "byte list \<Rightarrow> byte list \<Rightarrow> nat \<Rightarrow> nat \<Rightarrow> error + byte list" where
  "copy_bytes buf dest src_pos len =
     (if src_pos + len \<le> length buf
      then Inr (dest @ take len (drop src_pos buf))
      else Inl OutOfBounds)"

text \<open>\<open>std::string(reinterpret_cast<const char*>(&binary_sequence_[pos]), name_length)\<close>:
  the element at \<open>pos\<close> has to exist, and \<open>name_length\<close> bytes are read from there.\<close>

definition read_string :: "byte list \<Rightarrow> nat \<Rightarrow> nat \<Rightarrow> error + string" where
  "read_string buf pos name_length =
     (if pos < length buf \<and> pos + name_length \<le> length buf
      then Inr (map (\<lambda>b. char_of (unat b)) (take name_length (drop pos buf)))
      else Inl OutOfBounds)"

section \<open>\<open>parse_binary_sequence\<close> and the constructor\<close>

text \<open>One turn of the \<open>while\<close> loop, entered with \<open>pos < binary_sequence_.size()\<close>:
  the new position and catalog.  \<open>length - 8\<close> is computed in \<open>uint32_t\<close> and then
  widened to \<open>size_t\<close>.\<close>

definition parse_step :: "byte list \<Rightarrow> nat \<Rightarrow> vrd_map \<Rightarrow> error + (nat \<times> vrd_map)" where
  "parse_step buf pos m =
     (let cmd_type = buf ! pos in
      case read_uint32 buf (pos + 1) of
        Inl e \<Rightarrow> Inl e
      | Inr len \<Rightarrow>
          if cmd_type = VRD_INFO then
            (let name_length = unat (len - 8) in
             case read_string buf (pos + 5) name_length of
               Inl e \<Rightarrow> Inl e
             | Inr nm \<Rightarrow>
                 (case read_uint32 buf (pos + 5 + name_length) of
                    Inl e \<Rightarrow> Inl e
                  | Inr sz \<Rightarrow>
                      (case read_uint32 buf (pos + 5 + name_length + 4) of
                         Inl e \<Rightarrow> Inl e
                       | Inr dst \<Rightarrow>
                           Inr (pos + 5 + name_length + 4 + 4,
                                AList.update nm
                                  \<lparr>name = nm, size_v = sz, dst_addr = dst,
                                   data = [], is_loaded = False\<rparr> m))))
          else Inr (pos + 5 + unat len, m))"

lemma parse_step_advances:
  "parse_step buf pos m = Inr (pos', m') \<Longrightarrow> pos < pos'"
  by (auto simp: parse_step_def Let_def split: sum.splits if_splits)

function parse_loop :: "byte list \<Rightarrow> nat \<Rightarrow> vrd_map \<Rightarrow> error + vrd_map" where
  "parse_loop buf pos m =
     (if pos < length buf then
        (case parse_step buf pos m of
           Inl e \<Rightarrow> Inl e
         | Inr (pos', m') \<Rightarrow> parse_loop buf pos' m')
      else Inr m)"
  by pat_completeness auto
termination
  by (relation "measure (\<lambda>(buf, pos, m). length buf - pos)")
     (auto dest: parse_step_advances)

declare parse_loop.simps [simp del]

definition parse_binary_sequence :: "AppInitializer \<Rightarrow> error + AppInitializer" where
  "parse_binary_sequence s =
     (case parse_loop (binary_sequence s) 0 (vrd_map s) of
        Inl e \<Rightarrow> Inl e
      | Inr m \<Rightarrow> Inr (s\<lparr>vrd_map := m\<rparr>))"

text \<open>The constructor: \<open>None\<close> is a file that cannot be opened, \<open>Some buf\<close> the
  bytes of the file.\<close>

definition AppInitializer_ctor :: "byte list option \<Rightarrow> error + AppInitializer" where
  "AppInitializer_ctor file =
     (case file of
        None \<Rightarrow> Inl FileOpenFailed
      | Some buf \<Rightarrow> parse_binary_sequence \<lparr>binary_sequence = buf, vrd_map = []\<rparr>)"

section \<open>\<open>load_vrd_data\<close>\<close>

text \<open>The member function changes the object and may throw; the model returns the
  outcome together with the object as the call leaves it.\<close>

definition load_vrd_data ::
  "string \<Rightarrow> byte list \<Rightarrow> AppInitializer \<Rightarrow> (error + unit) \<times> AppInitializer" where
  "load_vrd_data vrd_name d s =
     (case map_of (vrd_map s) vrd_name of
        None \<Rightarrow> (Inl (VrdNotFound vrd_name), s)
      | Some v \<Rightarrow>
          if length d \<noteq> unat (size_v v)
          then (Inl (SizeMismatch vrd_name (unat (size_v v)) (length d)), s)
          else (Inr (),
                s\<lparr>vrd_map := AList.update vrd_name (v\<lparr>data := d, is_loaded := True\<rparr>)
                               (vrd_map s)\<rparr>))"

section \<open>\<open>generate_init_sequence\<close>\<close>

text \<open>The first loop, over the pairs of the map.\<close>

fun verify_loaded :: "vrd_map \<Rightarrow> error + unit" where
  "verify_loaded [] = Inr ()"
| "verify_loaded ((k, v) # ps) =
     (if \<not> is_loaded v then Inl (VrdNotLoaded k) else verify_loaded ps)"

text \<open>One turn of the second loop: the new position and the output so far.  The
  length field of the generated command is \<open>vrd.data.size() + 8\<close> narrowed to
  \<open>uint32_t\<close>.\<close>

definition gen_step ::
  "AppInitializer \<Rightarrow> nat \<Rightarrow> byte list \<Rightarrow> error + (nat \<times> byte list)" where
  "gen_step s pos init_sequence =
     (let buf = binary_sequence s; cmd_type = buf ! pos in
      case read_uint32 buf (pos + 1) of
        Inl e \<Rightarrow> Inl e
      | Inr len \<Rightarrow>
          if cmd_type = APB_WRITE then
            (case copy_bytes buf (append_uint32 (init_sequence @ [cmd_type]) len)
                    (pos + 5) (unat len) of
               Inl e \<Rightarrow> Inl e
             | Inr out \<Rightarrow> Inr (pos + 5 + unat len, out))
          else if cmd_type = VRD_INFO then
            (let name_length = unat (len - 8) in
             case read_string buf (pos + 5) name_length of
               Inl e \<Rightarrow> Inl e
             | Inr vrd_name \<Rightarrow>
                 (case map_of (vrd_map s) vrd_name of
                    None \<Rightarrow> Inl MapAtOutOfRange
                  | Some vrd \<Rightarrow>
                      Inr (pos + 5 + unat len,
                           append_uint32
                             (append_uint32
                               (append_uint32 (init_sequence @ [DMA_WRITE])
                                  (of_nat (length (data vrd) + 8)))
                               (dst_addr vrd))
                             (of_nat (length (data vrd)))
                           @ data vrd)))
          else if cmd_type = DMA_WRITE then
            (case copy_bytes buf (append_uint32 (init_sequence @ [cmd_type]) len)
                    (pos + 5) (unat len) of
               Inl e \<Rightarrow> Inl e
             | Inr out \<Rightarrow> Inr (pos + 5 + unat len, out))
          else Inl (UnknownCommandType (unat cmd_type)))"

lemma gen_step_advances:
  "gen_step s pos acc = Inr (pos', acc') \<Longrightarrow> pos < pos'"
  by (auto simp: gen_step_def Let_def split: sum.splits if_splits option.splits)

function gen_loop :: "AppInitializer \<Rightarrow> nat \<Rightarrow> byte list \<Rightarrow> error + byte list" where
  "gen_loop s pos init_sequence =
     (if pos < length (binary_sequence s) then
        (case gen_step s pos init_sequence of
           Inl e \<Rightarrow> Inl e
         | Inr (pos', out) \<Rightarrow> gen_loop s pos' out)
      else Inr init_sequence)"
  by pat_completeness auto
termination
  by (relation "measure (\<lambda>(s, pos, acc). length (binary_sequence s) - pos)")
     (auto dest: gen_step_advances)

declare gen_loop.simps [simp del]

definition generate_init_sequence :: "AppInitializer \<Rightarrow> error + byte list" where
  "generate_init_sequence s =
     (case verify_loaded (vrd_map s) of
        Inl e \<Rightarrow> Inl e
      | Inr _ \<Rightarrow> gen_loop s 0 [])"

section \<open>Introspection\<close>

definition get_vrd_count :: "AppInitializer \<Rightarrow> nat" where
  "get_vrd_count s = length (vrd_map s)"

definition has_vrd :: "AppInitializer \<Rightarrow> string \<Rightarrow> bool" where
  "has_vrd s vrd_name = (map_of (vrd_map s) vrd_name \<noteq> None)"

definition get_vrd_info :: "AppInitializer \<Rightarrow> string \<Rightarrow> error + VrdInfo" where
  "get_vrd_info s vrd_name =
     (case map_of (vrd_map s) vrd_name of
        None \<Rightarrow> Inl (VrdNotFound vrd_name)
      | Some v \<Rightarrow> Inr v)"

section \<open>Well-formed input\<close>

text \<open>
  The input language of the file format, for stating what the loops do on it: a
  command is one tag byte, the length of the body in four bytes (least significant
  first, as \<^const>\<open>append_uint32\<close> writes them) and the body.  The body of a
  \<open>VRD_INFO\<close> command is the name followed by the size and the destination address,
  as the sample of \<open>test_app_initializer.cpp\<close> writes it.
\<close>

definition le32 :: "u32 \<Rightarrow> byte list" where
  "le32 v = append_uint32 [] v"

definition name_bytes :: "string \<Rightarrow> byte list" where
  "name_bytes nm = map of_char nm"

datatype command = Command CommandType "byte list" | VrdDecl string u32 u32

fun cmd_bytes :: "command \<Rightarrow> byte list" where
  "cmd_bytes (Command t body) = t # le32 (of_nat (length body)) @ body"
| "cmd_bytes (VrdDecl nm sz dst) =
     VRD_INFO # le32 (of_nat (length nm + 8)) @ name_bytes nm @ le32 sz @ le32 dst"

definition cmds_bytes :: "command list \<Rightarrow> byte list" where
  "cmds_bytes cs = concat (map cmd_bytes cs)"

text \<open>The length field holds the length of the body: the body is shorter than
  \<open>2 ^ 32\<close> bytes.  A \<open>Command\<close> is any command other than a \<open>VRD_INFO\<close>.\<close>

fun cmd_ok :: "command \<Rightarrow> bool" where
  "cmd_ok (Command t body) = (t \<noteq> VRD_INFO \<and> length body < 2 ^ 32)"
| "cmd_ok (VrdDecl nm sz dst) = (length nm + 8 < 2 ^ 32)"

text \<open>A command that is copied to the output as it is: an \<open>APB_WRITE\<close> or a
  \<open>DMA_WRITE\<close>.\<close>

fun is_write :: "command \<Rightarrow> bool" where
  "is_write (Command t body) = ((t = APB_WRITE \<or> t = DMA_WRITE) \<and> length body < 2 ^ 32)"
| "is_write (VrdDecl nm sz dst) = False"

text \<open>The catalog entry a declaration leaves, and the catalog after a sequence of
  commands.\<close>

definition declared :: "string \<Rightarrow> u32 \<Rightarrow> u32 \<Rightarrow> VrdInfo" where
  "declared nm sz dst =
     \<lparr>name = nm, size_v = sz, dst_addr = dst, data = [], is_loaded = False\<rparr>"

fun catalog_step :: "command \<Rightarrow> vrd_map \<Rightarrow> vrd_map" where
  "catalog_step (Command t body) m = m"
| "catalog_step (VrdDecl nm sz dst) m = AList.update nm (declared nm sz dst) m"

definition catalog_of :: "command list \<Rightarrow> vrd_map \<Rightarrow> vrd_map" where
  "catalog_of cs m = fold catalog_step cs m"

text \<open>The \<open>DMA_WRITE\<close> command that takes the place of a declaration.\<close>

definition dma_bytes :: "VrdInfo \<Rightarrow> byte list" where
  "dma_bytes vrd =
     DMA_WRITE # le32 (of_nat (length (data vrd) + 8)) @ le32 (dst_addr vrd)
       @ le32 (of_nat (length (data vrd))) @ data vrd"

text \<open>A command whose tag the \<open>switch\<close> of the emission loop has a case for.\<close>

fun known_kind :: "command \<Rightarrow> bool" where
  "known_kind (Command t body) = (t = APB_WRITE \<or> t = DMA_WRITE)"
| "known_kind (VrdDecl nm sz dst) = True"

text \<open>What the emission loop writes for a command, and when it gets past it.\<close>

fun can_emit :: "vrd_map \<Rightarrow> command \<Rightarrow> bool" where
  "can_emit m (Command t body) = is_write (Command t body)"
| "can_emit m (VrdDecl nm sz dst) = (length nm + 8 < 2 ^ 32 \<and> map_of m nm \<noteq> None)"

fun emitted :: "vrd_map \<Rightarrow> command \<Rightarrow> byte list" where
  "emitted m (Command t body) = cmd_bytes (Command t body)"
| "emitted m (VrdDecl nm sz dst) =
     (case map_of m nm of None \<Rightarrow> [] | Some vrd \<Rightarrow> dma_bytes vrd)"

text \<open>The invariant of the catalog: a loaded entry holds as many bytes as it
  declares.  \<open>entry_decl\<close> is what the parse fixes of an entry.\<close>

definition payload_sized :: "AppInitializer \<Rightarrow> bool" where
  "payload_sized s =
     list_all (\<lambda>e. is_loaded (snd e) \<longrightarrow> length (data (snd e)) = unat (size_v (snd e)))
       (vrd_map s)"

definition entry_decl :: "string \<times> VrdInfo \<Rightarrow> string \<times> u32 \<times> u32" where
  "entry_decl e = (fst e, size_v (snd e), dst_addr (snd e))"

text \<open>An input of \<open>2 ^ 32 + 5\<close> bytes: a \<open>VRD_INFO\<close> command with length field 0,
  then the bytes of a \<open>VRD_INFO\<close> command with length field 8, then zeros.  With the
  length field 0 the name length \<open>length - 8\<close> is \<open>2 ^ 32 - 8\<close>, and \<open>wrap_name\<close> is the
  name read with it.\<close>

definition wrap_input :: "byte list" where
  "wrap_input = [0x02, 0, 0, 0, 0, 0x02, 0x08, 0, 0, 0] @ replicate 4294967291 0"

definition wrap_name :: string where
  "wrap_name = map (\<lambda>b. char_of (unat b)) ([0x02, 0x08, 0, 0, 0 :: byte] @ replicate 4294967283 0)"

section \<open>Reading what was written\<close>

lemma le32_roundtrip:
  "(ucast (ucast v :: byte) :: u32)
     OR push_bit 8 (ucast (ucast (drop_bit 8 v) :: byte) :: u32)
     OR push_bit 16 (ucast (ucast (drop_bit 16 v) :: byte) :: u32)
     OR push_bit 24 (ucast (ucast (drop_bit 24 v) :: byte) :: u32) = v"
proof (rule bit_word_eqI)
  fix n :: nat
  assume "n < LENGTH(32)"
  then have n: "n < 32" by simp
  consider "n < 8" | "8 \<le> n" "n < 16" | "16 \<le> n" "n < 24" | "24 \<le> n" "n < 32"
    using n by linarith
  then show "bit ((ucast (ucast v :: byte) :: u32)
     OR push_bit 8 (ucast (ucast (drop_bit 8 v) :: byte) :: u32)
     OR push_bit 16 (ucast (ucast (drop_bit 16 v) :: byte) :: u32)
     OR push_bit 24 (ucast (ucast (drop_bit 24 v) :: byte) :: u32)) n = bit v n"
    by cases (auto simp: bit_simps)
qed

lemma length_le32 [simp]: "length (le32 v) = 4"
  by (simp add: le32_def append_uint32_def)

lemma length_name_bytes [simp]: "length (name_bytes nm) = length nm"
  by (simp add: name_bytes_def)

lemma append_uint32_le32: "append_uint32 vec v = vec @ le32 v"
  by (simp add: le32_def append_uint32_def)

lemma read_uint32_le32:
  "pos = length pre \<Longrightarrow> read_uint32 (pre @ le32 v @ rest) pos = Inr v"
  by (simp add: read_uint32_def le32_def append_uint32_def nth_append le32_roundtrip)

lemma unat_of_char: "unat (of_char c :: byte) = of_char c"
proof -
  have "(of_char c :: nat) < 256" by simp
  then have "unat (of_nat (of_char c) :: byte) = of_char c"
    by (simp add: unat_of_nat)
  then show ?thesis by (simp only: of_nat_of_char)
qed

lemma decode_name_bytes: "map (\<lambda>b. char_of (unat b)) (name_bytes nm) = nm"
  by (simp add: name_bytes_def unat_of_char o_def)

lemma read_string_name_bytes:
  "pos = length pre \<Longrightarrow> n = length nm \<Longrightarrow> nm \<noteq> [] \<or> rest \<noteq> [] \<Longrightarrow>
   read_string (pre @ name_bytes nm @ rest) pos n = Inr nm"
  by (auto simp: read_string_def decode_name_bytes)

lemma copy_bytes_at:
  "pos = length pre \<Longrightarrow> n = length body \<Longrightarrow>
   copy_bytes (pre @ body @ rest) dest pos n = Inr (dest @ body)"
  by (simp add: copy_bytes_def)

lemma unat_len_minus_8:
  "n + 8 < 2 ^ 32 \<Longrightarrow> unat ((of_nat (n + 8) :: u32) - 8) = n"
proof -
  assume "n + 8 < 2 ^ 32"
  then have "n < 2 ^ 32" by simp
  have "(of_nat (n + 8) :: u32) - 8 = of_nat n" by simp
  then show ?thesis using \<open>n < 2 ^ 32\<close> by (simp add: unat_of_nat)
qed

section \<open>The parse loop on well-formed input\<close>

lemma parse_step_skip:
  "buf ! pos \<noteq> VRD_INFO \<Longrightarrow> read_uint32 buf (pos + 1) = Inr len \<Longrightarrow>
   parse_step buf pos m = Inr (pos + 5 + unat len, m)"
  by (simp add: parse_step_def)

lemma parse_step_insert:
  "buf ! pos = VRD_INFO \<Longrightarrow> read_uint32 buf (pos + 1) = Inr len \<Longrightarrow>
   read_string buf (pos + 5) (unat (len - 8)) = Inr nm \<Longrightarrow>
   read_uint32 buf (pos + 5 + unat (len - 8)) = Inr sz \<Longrightarrow>
   read_uint32 buf (pos + 5 + unat (len - 8) + 4) = Inr dst \<Longrightarrow>
   parse_step buf pos m =
     Inr (pos + 5 + unat (len - 8) + 4 + 4, AList.update nm (declared nm sz dst) m)"
  by (simp add: parse_step_def Let_def declared_def)

lemma parse_step_Command:
  assumes "cmd_ok (Command t body)"
  shows "parse_step (pre @ cmd_bytes (Command t body) @ rest) (length pre) m =
           Inr (length pre + length (cmd_bytes (Command t body)), m)"
proof -
  define len :: u32 where "len = of_nat (length body)"
  define buf where "buf = pre @ cmd_bytes (Command t body) @ rest"
  have b: "buf = (pre @ [t]) @ le32 len @ (body @ rest)"
    by (simp add: buf_def len_def)
  have len: "read_uint32 buf (length pre + 1) = Inr len"
    unfolding b by (rule read_uint32_le32) simp
  from assms have t: "buf ! length pre \<noteq> VRD_INFO"
    by (simp add: b)
  from assms have u: "unat len = length body"
    by (simp add: len_def unat_of_nat)
  from parse_step_skip [OF t len, of m] show ?thesis
    by (simp add: u) (simp add: buf_def)
qed

lemma parse_step_VrdDecl:
  assumes "cmd_ok (VrdDecl nm sz dst)"
  shows "parse_step (pre @ cmd_bytes (VrdDecl nm sz dst) @ rest) (length pre) m =
           Inr (length pre + length (cmd_bytes (VrdDecl nm sz dst)),
                catalog_step (VrdDecl nm sz dst) m)"
proof -
  define len :: u32 where "len = of_nat (length nm + 8)"
  define buf where "buf = pre @ cmd_bytes (VrdDecl nm sz dst) @ rest"
  have b1: "buf = (pre @ [VRD_INFO]) @ le32 len @ (name_bytes nm @ le32 sz @ le32 dst @ rest)"
    and b2: "buf = (pre @ VRD_INFO # le32 len) @ name_bytes nm @ (le32 sz @ le32 dst @ rest)"
    and b3: "buf = (pre @ VRD_INFO # le32 len @ name_bytes nm) @ le32 sz @ (le32 dst @ rest)"
    and b4: "buf = (pre @ VRD_INFO # le32 len @ name_bytes nm @ le32 sz) @ le32 dst @ rest"
    by (simp_all add: buf_def len_def)
  have len: "read_uint32 buf (length pre + 1) = Inr len"
    unfolding b1 by (rule read_uint32_le32) simp
  have t: "buf ! length pre = VRD_INFO"
    by (simp add: b1)
  from assms have nl: "unat (len - 8) = length nm"
    unfolding len_def by (intro unat_len_minus_8) simp
  have nm: "read_string buf (length pre + 5) (unat (len - 8)) = Inr nm"
    unfolding b2 nl by (rule read_string_name_bytes) (simp_all add: le32_def append_uint32_def)
  have sz: "read_uint32 buf (length pre + 5 + unat (len - 8)) = Inr sz"
    unfolding b3 nl by (rule read_uint32_le32) simp
  have dst: "read_uint32 buf (length pre + 5 + unat (len - 8) + 4) = Inr dst"
    unfolding b4 nl by (rule read_uint32_le32) simp
  from parse_step_insert [OF t len nm sz dst, of m] show ?thesis
    by (simp add: nl) (simp add: buf_def)
qed

lemma parse_loop_step:
  "pos < length buf \<Longrightarrow> parse_step buf pos m = Inr (pos', m') \<Longrightarrow>
   parse_loop buf pos m = parse_loop buf pos' m'"
  by (subst parse_loop.simps) simp

lemma parse_loop_end: "length buf \<le> pos \<Longrightarrow> parse_loop buf pos m = Inr m"
  by (subst parse_loop.simps) simp

lemma cmd_bytes_nonempty: "0 < length (cmd_bytes c)"
  by (cases c) simp_all

lemma parse_step_cmd:
  "cmd_ok c \<Longrightarrow>
   parse_step (pre @ cmd_bytes c @ rest) (length pre) m =
     Inr (length pre + length (cmd_bytes c), catalog_step c m)"
  using parse_step_Command parse_step_VrdDecl by (cases c) simp_all

lemma parse_loop_cmds:
  "\<forall>c\<in>set cs. cmd_ok c \<Longrightarrow>
   parse_loop (pre @ cmds_bytes cs @ rest) (length pre) m =
     parse_loop (pre @ cmds_bytes cs @ rest) (length pre + length (cmds_bytes cs))
       (catalog_of cs m)"
proof (induction cs arbitrary: pre m)
  case Nil
  then show ?case by (simp add: cmds_bytes_def catalog_of_def)
next
  case (Cons c cs)
  let ?buf = "pre @ cmds_bytes (c # cs) @ rest"
  have buf: "?buf = pre @ cmd_bytes c @ (cmds_bytes cs @ rest)"
    and buf': "?buf = (pre @ cmd_bytes c) @ cmds_bytes cs @ rest"
    by (simp_all add: cmds_bytes_def)
  from Cons.prems have ok: "cmd_ok c" and oks: "\<forall>c\<in>set cs. cmd_ok c" by simp_all
  have step: "parse_step ?buf (length pre) m =
                Inr (length pre + length (cmd_bytes c), catalog_step c m)"
    unfolding buf using ok by (rule parse_step_cmd)
  have "length pre < length ?buf"
    unfolding buf using cmd_bytes_nonempty [of c] by simp
  then have "parse_loop ?buf (length pre) m =
               parse_loop ?buf (length (pre @ cmd_bytes c)) (catalog_step c m)"
    using step by (simp add: parse_loop_step)
  also have "\<dots> = parse_loop ?buf (length (pre @ cmd_bytes c) + length (cmds_bytes cs))
                     (catalog_of cs (catalog_step c m))"
    unfolding buf' using oks by (rule Cons.IH)
  finally show ?case
    by (simp add: cmds_bytes_def catalog_of_def add.assoc)
qed


section \<open>The emission loop on well-formed input\<close>

lemma gen_step_copy:
  "binary_sequence s ! pos = APB_WRITE \<or> binary_sequence s ! pos = DMA_WRITE \<Longrightarrow>
   read_uint32 (binary_sequence s) (pos + 1) = Inr len \<Longrightarrow>
   copy_bytes (binary_sequence s) (append_uint32 (acc @ [binary_sequence s ! pos]) len)
     (pos + 5) (unat len) = Inr out \<Longrightarrow>
   gen_step s pos acc = Inr (pos + 5 + unat len, out)"
  by (auto simp: gen_step_def Let_def APB_WRITE_def DMA_WRITE_def VRD_INFO_def)

lemma gen_step_vrd:
  "binary_sequence s ! pos = VRD_INFO \<Longrightarrow>
   read_uint32 (binary_sequence s) (pos + 1) = Inr len \<Longrightarrow>
   read_string (binary_sequence s) (pos + 5) (unat (len - 8)) = Inr nm \<Longrightarrow>
   map_of (vrd_map s) nm = Some vrd \<Longrightarrow>
   gen_step s pos acc = Inr (pos + 5 + unat len, acc @ dma_bytes vrd)"
  by (simp add: gen_step_def Let_def APB_WRITE_def VRD_INFO_def dma_bytes_def
      append_uint32_le32)

lemma gen_step_unknown:
  "binary_sequence s ! pos = t \<Longrightarrow>
   t \<noteq> APB_WRITE \<Longrightarrow> t \<noteq> VRD_INFO \<Longrightarrow> t \<noteq> DMA_WRITE \<Longrightarrow>
   read_uint32 (binary_sequence s) (pos + 1) = Inr len \<Longrightarrow>
   gen_step s pos acc = Inl (UnknownCommandType (unat t))"
  by (simp add: gen_step_def Let_def)

lemma gen_loop_step:
  "pos < length (binary_sequence s) \<Longrightarrow> gen_step s pos acc = Inr (pos', out) \<Longrightarrow>
   gen_loop s pos acc = gen_loop s pos' out"
  by (subst gen_loop.simps) simp

lemma gen_loop_fail:
  "pos < length (binary_sequence s) \<Longrightarrow> gen_step s pos acc = Inl e \<Longrightarrow>
   gen_loop s pos acc = Inl e"
  by (subst gen_loop.simps) simp

lemma gen_loop_end:
  "length (binary_sequence s) \<le> pos \<Longrightarrow> gen_loop s pos acc = Inr acc"
  by (subst gen_loop.simps) simp

lemma gen_step_Command:
  assumes "is_write (Command t body)"
    and "binary_sequence s = pre @ cmd_bytes (Command t body) @ rest"
  shows "gen_step s (length pre) acc =
           Inr (length pre + length (cmd_bytes (Command t body)),
                acc @ cmd_bytes (Command t body))"
proof -
  define len :: u32 where "len = of_nat (length body)"
  define buf where "buf = binary_sequence s"
  have b: "buf = (pre @ [t]) @ le32 len @ (body @ rest)"
    and b': "buf = (pre @ t # le32 len) @ body @ rest"
    by (simp_all add: buf_def len_def assms(2))
  have len: "read_uint32 buf (length pre + 1) = Inr len"
    unfolding b by (rule read_uint32_le32) simp
  have t: "buf ! length pre = t"
    by (simp add: b)
  from assms(1) have u: "unat len = length body"
    by (simp add: len_def unat_of_nat)
  have cp: "copy_bytes buf (append_uint32 (acc @ [buf ! length pre]) len)
              (length pre + 5) (unat len) = Inr (acc @ t # le32 len @ body)"
    unfolding t u append_uint32_le32
    by (subst b', subst copy_bytes_at) simp_all
  from assms(1) have w: "buf ! length pre = APB_WRITE \<or> buf ! length pre = DMA_WRITE"
    by (simp add: t)
  from gen_step_copy [OF w [unfolded buf_def] len [unfolded buf_def] cp [unfolded buf_def]]
  show ?thesis
    by (simp add: u) (simp add: len_def)
qed

lemma gen_step_VrdDecl:
  assumes "cmd_ok (VrdDecl nm sz dst)"
    and "binary_sequence s = pre @ cmd_bytes (VrdDecl nm sz dst) @ rest"
    and "map_of (vrd_map s) nm = Some vrd"
  shows "gen_step s (length pre) acc =
           Inr (length pre + length (cmd_bytes (VrdDecl nm sz dst)), acc @ dma_bytes vrd)"
proof -
  define len :: u32 where "len = of_nat (length nm + 8)"
  define buf where "buf = binary_sequence s"
  have b1: "buf = (pre @ [VRD_INFO]) @ le32 len @ (name_bytes nm @ le32 sz @ le32 dst @ rest)"
    and b2: "buf = (pre @ VRD_INFO # le32 len) @ name_bytes nm @ (le32 sz @ le32 dst @ rest)"
    by (simp_all add: buf_def len_def assms(2))
  have len: "read_uint32 buf (length pre + 1) = Inr len"
    unfolding b1 by (rule read_uint32_le32) simp
  have t: "buf ! length pre = VRD_INFO"
    by (simp add: b1)
  from assms(1) have nl: "unat (len - 8) = length nm"
    unfolding len_def by (intro unat_len_minus_8) simp
  from assms(1) have "length nm + 8 < 2 ^ LENGTH(32)"
    by simp
  then have u: "unat len = length nm + 8"
    unfolding len_def by (simp only: unat_of_nat mod_less)
  have nm: "read_string buf (length pre + 5) (unat (len - 8)) = Inr nm"
    unfolding b2 nl by (rule read_string_name_bytes) (simp_all add: le32_def append_uint32_def)
  from gen_step_vrd [OF t [unfolded buf_def] len [unfolded buf_def] nm [unfolded buf_def]
      assms(3), of acc]
  show ?thesis
    by (simp add: u)
qed

lemma gen_step_cmd:
  assumes "can_emit (vrd_map s) c"
    and "binary_sequence s = pre @ cmd_bytes c @ rest"
  shows "gen_step s (length pre) acc =
           Inr (length pre + length (cmd_bytes c), acc @ emitted (vrd_map s) c)"
proof (cases c)
  case (Command t body)
  with assms show ?thesis
    using gen_step_Command [of t body s pre rest acc] by simp
next
  case (VrdDecl nm sz dst)
  with assms obtain vrd where "map_of (vrd_map s) nm = Some vrd"
    by auto
  with VrdDecl assms show ?thesis
    using gen_step_VrdDecl [of nm sz dst s pre rest vrd acc] by simp
qed

lemma gen_loop_cmds:
  "\<forall>c\<in>set cs. can_emit (vrd_map s) c \<Longrightarrow>
   binary_sequence s = pre @ cmds_bytes cs @ rest \<Longrightarrow>
   gen_loop s (length pre) acc =
     gen_loop s (length pre + length (cmds_bytes cs))
       (acc @ concat (map (emitted (vrd_map s)) cs))"
proof (induction cs arbitrary: pre acc)
  case Nil
  then show ?case by (simp add: cmds_bytes_def)
next
  case (Cons c cs)
  have buf: "binary_sequence s = pre @ cmd_bytes c @ (cmds_bytes cs @ rest)"
    and buf': "binary_sequence s = (pre @ cmd_bytes c) @ cmds_bytes cs @ rest"
    using Cons.prems(2) by (simp_all add: cmds_bytes_def)
  from Cons.prems(1) have ok: "can_emit (vrd_map s) c"
    and oks: "\<forall>c\<in>set cs. can_emit (vrd_map s) c" by simp_all
  have step: "gen_step s (length pre) acc =
                Inr (length pre + length (cmd_bytes c), acc @ emitted (vrd_map s) c)"
    using ok buf by (rule gen_step_cmd)
  have "length pre < length (binary_sequence s)"
    unfolding buf using cmd_bytes_nonempty [of c] by simp
  then have "gen_loop s (length pre) acc =
               gen_loop s (length (pre @ cmd_bytes c)) (acc @ emitted (vrd_map s) c)"
    using step by (simp add: gen_loop_step)
  also have "\<dots> = gen_loop s (length (pre @ cmd_bytes c) + length (cmds_bytes cs))
                     ((acc @ emitted (vrd_map s) c) @ concat (map (emitted (vrd_map s)) cs))"
    using oks buf' by (rule Cons.IH)
  finally show ?case
    by (simp add: cmds_bytes_def add.assoc)
qed

lemma parse_cmds:
  "\<forall>c\<in>set cs. cmd_ok c \<Longrightarrow> parse_loop (cmds_bytes cs) 0 m = Inr (catalog_of cs m)"
  using parse_loop_cmds [of cs "[]" "[]" m] by (simp add: parse_loop_end)

lemma ctor_cmds:
  "\<forall>c\<in>set cs. cmd_ok c \<Longrightarrow>
   AppInitializer_ctor (Some (cmds_bytes cs)) =
     Inr \<lparr>binary_sequence = cmds_bytes cs, vrd_map = catalog_of cs []\<rparr>"
  by (simp add: AppInitializer_ctor_def parse_binary_sequence_def parse_cmds)

lemma gen_cmds:
  "\<forall>c\<in>set cs. can_emit (vrd_map s) c \<Longrightarrow> binary_sequence s = cmds_bytes cs \<Longrightarrow>
   gen_loop s 0 [] = Inr (concat (map (emitted (vrd_map s)) cs))"
  using gen_loop_cmds [of cs s "[]" "[]" "[]"] by (simp add: gen_loop_end)

lemma is_write_cmd_ok: "is_write c \<Longrightarrow> cmd_ok c"
  by (cases c) (auto simp: APB_WRITE_def DMA_WRITE_def VRD_INFO_def)

lemma is_write_can_emit: "is_write c \<Longrightarrow> can_emit m c"
  by (cases c) simp_all

lemma is_write_emitted: "is_write c \<Longrightarrow> emitted m c = cmd_bytes c"
  by (cases c) simp_all

lemma is_write_catalog_step: "is_write c \<Longrightarrow> catalog_step c m = m"
  by (cases c) simp_all

lemma writes_catalog_of: "\<forall>c\<in>set cs. is_write c \<Longrightarrow> catalog_of cs m = m"
  by (induction cs arbitrary: m) (simp_all add: catalog_of_def is_write_catalog_step)

lemma writes_emitted:
  "\<forall>c\<in>set cs. is_write c \<Longrightarrow> concat (map (emitted m) cs) = cmds_bytes cs"
  by (induction cs) (simp_all add: cmds_bytes_def is_write_emitted)

lemma cmds_bytes_append: "cmds_bytes (xs @ ys) = cmds_bytes xs @ cmds_bytes ys"
  by (simp add: cmds_bytes_def)

lemma cmds_bytes_Cons: "cmds_bytes (c # cs) = cmd_bytes c @ cmds_bytes cs"
  by (simp add: cmds_bytes_def)

lemma catalog_of_append: "catalog_of (xs @ ys) m = catalog_of ys (catalog_of xs m)"
  by (simp add: catalog_of_def)

lemma catalog_of_Cons: "catalog_of (c # cs) m = catalog_of cs (catalog_step c m)"
  by (simp add: catalog_of_def)

lemma dma_bytes_loaded:
  "length P = unat S \<Longrightarrow>
   dma_bytes ((declared nm S D)\<lparr>data := P, is_loaded := True\<rparr>) =
     DMA_WRITE # le32 (S + 8) @ le32 D @ le32 S @ P"
  by (simp add: dma_bytes_def declared_def)

lemma word_numeral_byte: "(8192 :: byte) = 0"
  by simp

section \<open>The catalog\<close>

lemma verify_loaded_first:
  "find (\<lambda>e. \<not> is_loaded (snd e)) m = Some (k, v) \<Longrightarrow> verify_loaded m = Inl (VrdNotLoaded k)"
  by (induction m rule: verify_loaded.induct) (auto split: if_splits)

lemma verify_loaded_all:
  "\<forall>e\<in>set m. is_loaded (snd e) \<Longrightarrow> verify_loaded m = Inr ()"
  by (induction m rule: verify_loaded.induct) auto

lemma update_present_keys:
  "map_of m k = Some v \<Longrightarrow> map fst (AList.update k v' m) = map fst m"
  by (induction m) (auto split: if_splits)

lemma update_other_entries:
  "filter (\<lambda>e. fst e \<noteq> k) (AList.update k v' m) = filter (\<lambda>e. fst e \<noteq> k) m"
  by (induction m) auto

lemma update_declarations:
  "map_of m k = Some v \<Longrightarrow> size_v v' = size_v v \<Longrightarrow> dst_addr v' = dst_addr v \<Longrightarrow>
   map entry_decl (AList.update k v' m) = map entry_decl m"
  by (induction m) (auto simp: entry_decl_def split: if_splits)

lemma update_list_all:
  "list_all P m \<Longrightarrow> P (k, v') \<Longrightarrow> list_all P (AList.update k v' m)"
  by (induction m) auto

lemma set_update_subset: "set (AList.update k v m) \<subseteq> insert (k, v) (set m)"
  by (induction m) auto

lemma parse_step_unloaded:
  assumes "parse_step buf pos m = Inr (pos', m')" and "\<forall>e\<in>set m. \<not> is_loaded (snd e)"
  shows "\<forall>e\<in>set m'. \<not> is_loaded (snd e)"
proof (cases "buf ! pos = VRD_INFO")
  case False
  with assms show ?thesis
    by (auto simp: parse_step_def split: sum.splits)
next
  case True
  with assms(1) obtain nm sz dst where "m' = AList.update nm (declared nm sz dst) m"
    by (auto simp: parse_step_def Let_def declared_def split: sum.splits)
  then have "set m' \<subseteq> insert (nm, declared nm sz dst) (set m)"
    by (simp add: set_update_subset)
  with assms(2) show ?thesis
    by (auto simp: declared_def)
qed

lemma parse_loop_unloaded:
  "parse_loop buf pos m = Inr m' \<Longrightarrow> \<forall>e\<in>set m. \<not> is_loaded (snd e) \<Longrightarrow>
   \<forall>e\<in>set m'. \<not> is_loaded (snd e)"
proof (induction buf pos m rule: parse_loop.induct)
  case (1 buf pos m)
  show ?case
  proof (cases "pos < length buf")
    case False
    with "1.prems" show ?thesis
      by (simp add: parse_loop.simps)
  next
    case True
    with "1.prems"(1) obtain pos' m1 where step: "parse_step buf pos m = Inr (pos', m1)"
      and rest: "parse_loop buf pos' m1 = Inr m'"
      by (subst (asm) parse_loop.simps) (auto split: sum.splits)
    from step "1.prems"(2) have "\<forall>e\<in>set m1. \<not> is_loaded (snd e)"
      by (rule parse_step_unloaded)
    with "1.IH" [OF True step refl rest] show ?thesis .
  qed
qed

lemma ctor_unloaded:
  assumes "AppInitializer_ctor file = Inr s"
  shows "\<forall>e\<in>set (vrd_map s). \<not> is_loaded (snd e)"
proof -
  from assms obtain buf where "file = Some buf"
    by (cases "file") (simp_all add: AppInitializer_ctor_def)
  with assms obtain m where m: "parse_loop buf 0 [] = Inr m" and s: "vrd_map s = m"
    by (auto simp: AppInitializer_ctor_def parse_binary_sequence_def split: sum.splits)
  from parse_loop_unloaded [OF m] s show ?thesis
    by simp
qed

lemma load_payload_sized:
  "payload_sized s \<Longrightarrow> payload_sized (snd (load_vrd_data n d s))"
  by (auto simp: payload_sized_def load_vrd_data_def update_list_all split: option.splits)

lemma load_entry_decls:
  "map entry_decl (vrd_map (snd (load_vrd_data n d s))) = map entry_decl (vrd_map s)"
  by (auto simp: load_vrd_data_def update_declarations split: option.splits)

lemma keys_catalog_step: "fst ` set m \<subseteq> fst ` set (catalog_step c m)"
  by (cases c) (auto simp: dom_update)

lemma keys_catalog_of: "fst ` set m \<subseteq> fst ` set (catalog_of cs m)"
proof (induction cs arbitrary: m)
  case Nil
  show ?case by (simp add: catalog_of_def)
next
  case (Cons c cs)
  from keys_catalog_step [of m c] Cons.IH [of "catalog_step c m"] show ?case
    by (simp only: catalog_of_Cons)
qed

lemma declared_in_catalog:
  "VrdDecl nm sz dst \<in> set cs \<Longrightarrow> nm \<in> fst ` set (catalog_of cs m)"
proof (induction cs arbitrary: m)
  case Nil
  then show ?case by simp
next
  case (Cons c cs)
  show ?case
  proof (cases "c = VrdDecl nm sz dst")
    case True
    then have "nm \<in> fst ` set (catalog_step c m)"
      by (simp add: dom_update)
    with keys_catalog_of [of "catalog_step c m" cs] show ?thesis
      by (auto simp: catalog_of_Cons)
  next
    case False
    with Cons.prems have "VrdDecl nm sz dst \<in> set cs" by simp
    then show ?thesis
      by (simp add: catalog_of_Cons Cons.IH)
  qed
qed

lemma map_of_keys: "map_of m k \<noteq> None \<longleftrightarrow> k \<in> fst ` set m"
  by (simp add: map_of_eq_None_iff)

lemma known_can_emit:
  assumes "cmd_ok c" and "known_kind c" and "c \<in> set cs"
    and "fst ` set (catalog_of cs []) \<subseteq> fst ` set m"
  shows "can_emit m c"
proof (cases c)
  case (Command t body)
  with assms(1,2) show ?thesis by simp
next
  case (VrdDecl nm sz dst)
  with assms(3) have "nm \<in> fst ` set (catalog_of cs [])"
    by (simp add: declared_in_catalog)
  with assms(4) have "map_of m nm \<noteq> None"
    unfolding map_of_keys by blast
  with VrdDecl assms(1) show ?thesis by simp
qed

section \<open>Failures of the parse loop\<close>

lemma parse_loop_fail:
  "pos < length buf \<Longrightarrow> parse_step buf pos m = Inl e \<Longrightarrow> parse_loop buf pos m = Inl e"
  by (subst parse_loop.simps) simp

lemma read_uint32_error: "read_uint32 buf pos = Inl e \<Longrightarrow> e = OutOfBounds"
  by (simp add: read_uint32_def split: if_splits)

lemma read_string_error: "read_string buf pos n = Inl e \<Longrightarrow> e = OutOfBounds"
  by (simp add: read_string_def split: if_splits)

lemma parse_step_error: "parse_step buf pos m = Inl e \<Longrightarrow> e = OutOfBounds"
  by (auto simp: parse_step_def Let_def split: sum.splits if_splits
      dest: read_uint32_error read_string_error)

lemma parse_loop_error: "parse_loop buf pos m = Inl e \<Longrightarrow> e = OutOfBounds"
proof (induction buf pos m rule: parse_loop.induct)
  case (1 buf pos m)
  show ?case
  proof (cases "pos < length buf")
    case False
    with "1.prems" show ?thesis
      by (simp add: parse_loop.simps)
  next
    case True
    show ?thesis
    proof (cases "parse_step buf pos m")
      case (Inl e')
      with True "1.prems" have "e' = e"
        by (simp add: parse_loop_fail)
      with Inl show ?thesis
        by (simp add: parse_step_error)
    next
      case (Inr r)
      obtain pos' m1 where r: "r = (pos', m1)"
        by (cases r)
      with Inr True "1.prems" have "parse_loop buf pos' m1 = Inl e"
        by (simp add: parse_loop_step)
      with "1.IH" [OF True Inr [unfolded r] refl] show ?thesis .
    qed
  qed
qed

lemma parse_step_short_decl:
  assumes "buf ! pos = VRD_INFO" and "read_uint32 buf (pos + 1) = Inr len"
    and "length buf < pos + 5 + unat (len - 8) + 8"
  shows "parse_step buf pos m = Inl OutOfBounds"
proof -
  have "read_uint32 buf (pos + 5 + unat (len - 8) + 4) = Inl OutOfBounds"
    using assms(3) by (simp add: read_uint32_def)
  then show ?thesis
    using assms(1,2)
    by (auto simp: parse_step_def Let_def split: sum.splits
        dest: read_uint32_error read_string_error)
qed

lemma unat_wrapped_length:
  fixes len :: u32
  assumes "unat len < 8"
  shows "unat (len - 8) = unat len + 2 ^ 32 - 8"
  using assms by (simp add: unat_sub_if_size word_size)

section \<open>The two loops side by side\<close>

lemma parse_step_keys:
  assumes "parse_step buf pos m = Inr (pos', m')"
  shows "fst ` set m \<subseteq> fst ` set m'"
proof (cases "buf ! pos = VRD_INFO")
  case False
  with assms have "m' = m"
    by (auto simp: parse_step_def split: sum.splits)
  then show ?thesis by simp
next
  case True
  with assms obtain nm v where "m' = AList.update nm v m"
    by (auto simp: parse_step_def Let_def split: sum.splits)
  then have "fst ` set m' = {nm} \<union> fst ` set m"
    by (simp only: dom_update)
  then show ?thesis by blast
qed

lemma verify_loaded_error: "verify_loaded m = Inl e \<Longrightarrow> e \<noteq> MapAtOutOfRange"
  by (induction m rule: verify_loaded.induct) (auto split: if_splits)

lemma parse_loop_keys:
  "parse_loop buf pos m = Inr m' \<Longrightarrow> fst ` set m \<subseteq> fst ` set m'"
proof (induction buf pos m rule: parse_loop.induct)
  case (1 buf pos m)
  show ?case
  proof (cases "pos < length buf")
    case False
    with "1.prems" show ?thesis
      by (simp add: parse_loop.simps)
  next
    case True
    with "1.prems" obtain pos' m1 where step: "parse_step buf pos m = Inr (pos', m1)"
      and rest: "parse_loop buf pos' m1 = Inr m'"
      by (subst (asm) parse_loop.simps) (auto split: sum.splits)
    from parse_step_keys [OF step] "1.IH" [OF True step refl rest] show ?thesis
      by (rule subset_trans)
  qed
qed

lemma unat_length_minus_8:
  fixes len :: u32
  assumes "unat (len - 8) + 8 < 2 ^ 32"
  shows "unat (len - 8) + 8 = unat len"
proof (cases "unat len < 8")
  case True
  then have "unat (len - 8) = unat len + 2 ^ 32 - 8"
    by (simp add: unat_sub_if_size word_size)
  with assms show ?thesis by simp
next
  case False
  then show ?thesis
    by (simp add: unat_sub_if_size word_size)
qed

text \<open>In a buffer shorter than \<open>2 ^ 32\<close> bytes a turn of the parse loop and a turn of
  the emission loop that start at the same position end at the same position, and the
  name the emission loop looks up is the name the parse loop has inserted.\<close>

lemma gen_step_follows_parse_step:
  assumes step: "parse_step (binary_sequence s) pos m = Inr (pos', m1)"
    and short: "length (binary_sequence s) < 2 ^ 32"
    and keys: "fst ` set m1 \<subseteq> fst ` set (vrd_map s)"
  shows "gen_step s pos acc \<noteq> Inl MapAtOutOfRange
       \<and> (\<forall>p out. gen_step s pos acc = Inr (p, out) \<longrightarrow> p = pos')"
proof (cases "binary_sequence s ! pos = VRD_INFO")
  case False
  with step show ?thesis
    by (auto simp: parse_step_def gen_step_def Let_def copy_bytes_def
        split: sum.splits if_splits)
next
  case True
  define buf where "buf = binary_sequence s"
  from step True obtain len nm sz dst
    where len: "read_uint32 buf (pos + 1) = Inr len"
      and nm: "read_string buf (pos + 5) (unat (len - 8)) = Inr nm"
      and dst: "read_uint32 buf (pos + 5 + unat (len - 8) + 4) = Inr dst"
      and pos': "pos' = pos + 5 + unat (len - 8) + 4 + 4"
      and m1: "m1 = AList.update nm (declared nm sz dst) m"
    by (auto simp: parse_step_def Let_def declared_def buf_def split: sum.splits)
  from dst have "pos + 5 + unat (len - 8) + 4 + 3 < length buf"
    by (simp add: read_uint32_def split: if_splits)
  with short have "unat (len - 8) + 8 < 2 ^ 32"
    by (simp add: buf_def)
  then have same: "unat (len - 8) + 8 = unat len"
    by (rule unat_length_minus_8)
  from m1 have "nm \<in> fst ` set m1"
    by (simp add: dom_update)
  with keys have "map_of (vrd_map s) nm \<noteq> None"
    unfolding map_of_keys by blast
  then obtain vrd where "map_of (vrd_map s) nm = Some vrd"
    by blast
  with True len nm have "gen_step s pos acc = Inr (pos + 5 + unat len, acc @ dma_bytes vrd)"
    unfolding buf_def by (rule gen_step_vrd)
  with pos' same show ?thesis
    by simp
qed

lemma gen_loop_follows_parse_loop:
  "parse_loop buf pos m = Inr m' \<Longrightarrow> binary_sequence s = buf \<Longrightarrow> length buf < 2 ^ 32 \<Longrightarrow>
   fst ` set m' \<subseteq> fst ` set (vrd_map s) \<Longrightarrow>
   gen_loop s pos acc \<noteq> Inl MapAtOutOfRange"
proof (induction buf pos m arbitrary: acc rule: parse_loop.induct)
  case (1 buf pos m)
  show ?case
  proof (cases "pos < length buf")
    case False
    with "1.prems"(2) show ?thesis
      by (simp add: gen_loop_end)
  next
    case True
    with "1.prems"(1) obtain pos' m1 where step: "parse_step buf pos m = Inr (pos', m1)"
      and rest: "parse_loop buf pos' m1 = Inr m'"
      by (subst (asm) parse_loop.simps) (auto split: sum.splits)
    from parse_loop_keys [OF rest] "1.prems"(4)
    have keys: "fst ` set m1 \<subseteq> fst ` set (vrd_map s)"
      by (rule subset_trans)
    from step "1.prems"(2,3) keys
    have sync: "gen_step s pos acc \<noteq> Inl MapAtOutOfRange
       \<and> (\<forall>p out. gen_step s pos acc = Inr (p, out) \<longrightarrow> p = pos')"
      by (intro gen_step_follows_parse_step) simp_all
    from True "1.prems"(2) have in_range: "pos < length (binary_sequence s)"
      by simp
    show ?thesis
    proof (cases "gen_step s pos acc")
      case (Inl e)
      with in_range have "gen_loop s pos acc = Inl e"
        by (rule gen_loop_fail)
      with Inl sync show ?thesis
        by simp
    next
      case (Inr r)
      obtain p out where r: "r = (p, out)"
        by (cases r)
      with Inr sync have p: "p = pos'"
        by simp
      from in_range Inr r have "gen_loop s pos acc = gen_loop s p out"
        by (simp add: gen_loop_step)
      with p "1.IH" [OF True step refl rest "1.prems"(2,3,4), of out] show ?thesis
        by simp
    qed
  qed
qed

section \<open>The loops on the input of \<open>2 ^ 32 + 5\<close> bytes\<close>

lemma wrap_parse_step:
  "parse_step wrap_input 0 [] = Inr (4294967301, [(wrap_name, declared wrap_name 0 0)])"
  by (simp add: parse_step_def read_uint32_def read_string_def wrap_input_def wrap_name_def
      VRD_INFO_def Let_def declared_def nth_append)


lemma wrap_input_length: "length wrap_input = 4294967301"
  by (simp add: wrap_input_def)

lemma wrap_name_nonempty: "wrap_name \<noteq> []"
  by (simp add: wrap_name_def)

lemma wrap_parse_loop:
  "parse_loop wrap_input 0 [] = Inr [(wrap_name, declared wrap_name 0 0)]"
proof -
  have "parse_loop wrap_input 0 [] =
          parse_loop wrap_input 4294967301 [(wrap_name, declared wrap_name 0 0)]"
    using wrap_parse_step by (intro parse_loop_step) (simp add: wrap_input_length)
  also have "\<dots> = Inr [(wrap_name, declared wrap_name 0 0)]"
    by (intro parse_loop_end) (simp add: wrap_input_length)
  finally show ?thesis .
qed

lemma wrap_gen_step_first:
  "gen_step \<lparr>binary_sequence = wrap_input,
             vrd_map = [(wrap_name, (declared wrap_name 0 0)\<lparr>data := [], is_loaded := True\<rparr>)]\<rparr>
     0 [] = Inr (5, [0x04, 0x08, 0, 0, 0, 0, 0, 0, 0, 0, 0, 0, 0])"
  by (simp add: gen_step_def read_uint32_def read_string_def wrap_input_def wrap_name_def
      APB_WRITE_def VRD_INFO_def DMA_WRITE_def Let_def declared_def append_uint32_def)

lemma wrap_gen_step_second:
  "gen_step \<lparr>binary_sequence = wrap_input,
             vrd_map = [(wrap_name, (declared wrap_name 0 0)\<lparr>data := [], is_loaded := True\<rparr>)]\<rparr>
     5 acc = Inl MapAtOutOfRange"
proof -
  have "gen_step \<lparr>binary_sequence = wrap_input, vrd_map = m\<rparr> 5 acc =
          (case map_of m [] of None \<Rightarrow> Inl MapAtOutOfRange
           | Some vrd \<Rightarrow> Inr (18, append_uint32
                             (append_uint32
                               (append_uint32 (acc @ [DMA_WRITE])
                                  (of_nat (length (data vrd) + 8)))
                               (dst_addr vrd))
                             (of_nat (length (data vrd)))
                           @ data vrd))" for m
    by (simp add: gen_step_def read_uint32_def read_string_def wrap_input_def
        APB_WRITE_def VRD_INFO_def Let_def split: option.splits)
  then show ?thesis
    using wrap_name_nonempty by simp
qed

section \<open>Emission of input without declarations\<close>

text \<open>
  C3.  An input made of \<open>APB_WRITE\<close> and \<open>DMA_WRITE\<close> commands only, each with its
  body as long as its length field says, is accepted by the constructor with an empty
  catalog, and \<open>generate_init_sequence\<close> returns the input, byte for byte.
\<close>

theorem passthrough_roundtrip:
  assumes "\<forall>c\<in>set cs. is_write c"
  shows "AppInitializer_ctor (Some (cmds_bytes cs)) =
           Inr \<lparr>binary_sequence = cmds_bytes cs, vrd_map = []\<rparr>
         \<and> generate_init_sequence \<lparr>binary_sequence = cmds_bytes cs, vrd_map = []\<rparr> =
           Inr (cmds_bytes cs)"
proof -
  let ?s = "\<lparr>binary_sequence = cmds_bytes cs, vrd_map = []\<rparr>"
  from assms have ok: "\<forall>c\<in>set cs. cmd_ok c"
    by (simp add: is_write_cmd_ok)
  have ctor: "AppInitializer_ctor (Some (cmds_bytes cs)) = Inr ?s"
    using ctor_cmds [OF ok] assms by (simp add: writes_catalog_of)
  from assms have "\<forall>c\<in>set cs. can_emit (vrd_map ?s) c"
    by (simp add: is_write_can_emit)
  then have "gen_loop ?s 0 [] = Inr (concat (map (emitted (vrd_map ?s)) cs))"
    by (rule gen_cmds) simp
  then have "generate_init_sequence ?s = Inr (cmds_bytes cs)"
    using assms by (simp add: generate_init_sequence_def writes_emitted)
  with ctor show ?thesis by simp
qed

theorem passthrough_roundtrip_witness:
  "AppInitializer_ctor
     (Some [0x01, 0x08, 0, 0, 0, 0x00, 0x10, 0, 0, 0x78, 0x56, 0x34, 0x12,
            0x04, 0x0C, 0, 0, 0, 0, 0x30, 0, 0, 4, 0, 0, 0, 0xAA, 0xBB, 0xCC, 0xDD]) =
     Inr \<lparr>binary_sequence =
            [0x01, 0x08, 0, 0, 0, 0x00, 0x10, 0, 0, 0x78, 0x56, 0x34, 0x12,
             0x04, 0x0C, 0, 0, 0, 0, 0x30, 0, 0, 4, 0, 0, 0, 0xAA, 0xBB, 0xCC, 0xDD],
          vrd_map = []\<rparr>
   \<and> generate_init_sequence
       \<lparr>binary_sequence =
          [0x01, 0x08, 0, 0, 0, 0x00, 0x10, 0, 0, 0x78, 0x56, 0x34, 0x12,
           0x04, 0x0C, 0, 0, 0, 0, 0x30, 0, 0, 4, 0, 0, 0, 0xAA, 0xBB, 0xCC, 0xDD],
        vrd_map = []\<rparr> =
     Inr [0x01, 0x08, 0, 0, 0, 0x00, 0x10, 0, 0, 0x78, 0x56, 0x34, 0x12,
          0x04, 0x0C, 0, 0, 0, 0, 0x30, 0, 0, 4, 0, 0, 0, 0xAA, 0xBB, 0xCC, 0xDD]"
  using passthrough_roundtrip
    [of "[Command APB_WRITE [0x00, 0x10, 0, 0, 0x78, 0x56, 0x34, 0x12],
          Command DMA_WRITE [0, 0x30, 0, 0, 4, 0, 0, 0, 0xAA, 0xBB, 0xCC, 0xDD]]"]
  by (simp add: cmds_bytes_def le32_def append_uint32_def APB_WRITE_def DMA_WRITE_def)

section \<open>Emission with an entry that is not loaded\<close>

text \<open>
  C4.  When some entry of the catalog is not loaded, \<open>generate_init_sequence\<close> throws
  for the first such entry in the iteration order of the map and names its key.  The
  result is the error alone: the check runs before the output vector exists, and no
  output is returned.
\<close>

theorem unfilled_rejected:
  assumes "\<exists>e\<in>set (vrd_map s). \<not> is_loaded (snd e)"
  shows "\<exists>k v. find (\<lambda>e. \<not> is_loaded (snd e)) (vrd_map s) = Some (k, v)
           \<and> generate_init_sequence s = Inl (VrdNotLoaded k)"
proof -
  from assms have "find (\<lambda>e. \<not> is_loaded (snd e)) (vrd_map s) \<noteq> None"
    unfolding find_None_iff by blast
  then obtain e where "find (\<lambda>e. \<not> is_loaded (snd e)) (vrd_map s) = Some e"
    by blast
  then obtain k v where f: "find (\<lambda>e. \<not> is_loaded (snd e)) (vrd_map s) = Some (k, v)"
    by (cases e) blast
  then have "verify_loaded (vrd_map s) = Inl (VrdNotLoaded k)"
    by (rule verify_loaded_first)
  then have "generate_init_sequence s = Inl (VrdNotLoaded k)"
    by (simp add: generate_init_sequence_def)
  with f show ?thesis by blast
qed

theorem unfilled_rejected_witness:
  "(\<exists>e\<in>set [(''a'', (declared ''a'' 0 0)\<lparr>is_loaded := True\<rparr>), (''b'', declared ''b'' 1 0),
               (''c'', declared ''c'' 2 0)]. \<not> is_loaded (snd e))
   \<and> generate_init_sequence
        \<lparr>binary_sequence = [],
         vrd_map = [(''a'', (declared ''a'' 0 0)\<lparr>is_loaded := True\<rparr>), (''b'', declared ''b'' 1 0),
                    (''c'', declared ''c'' 2 0)]\<rparr> = Inl (VrdNotLoaded ''b'')"
  using unfilled_rejected
    [of "\<lparr>binary_sequence = [],
         vrd_map = [(''a'', (declared ''a'' 0 0)\<lparr>is_loaded := True\<rparr>), (''b'', declared ''b'' 1 0),
                    (''c'', declared ''c'' 2 0)]\<rparr>"]
  by (simp add: declared_def)

section \<open>\<open>load_vrd_data\<close>: the size check\<close>

text \<open>
  C5.  For an entry \<open>n\<close> of declared size \<open>S\<close>: data of another length is refused
  with the size mismatch and the object (so the entry) stays as it was; data of length
  \<open>S\<close> is accepted, stored, and the entry is marked loaded; a second call with data of
  length \<open>S\<close> replaces the stored data and the entry stays loaded.
\<close>

theorem injection_size_check:
  assumes "map_of (vrd_map s) n = Some v"
    and "length bad \<noteq> unat (size_v v)"
    and "length d = unat (size_v v)"
    and "length d' = unat (size_v v)"
  shows "load_vrd_data n bad s = (Inl (SizeMismatch n (unat (size_v v)) (length bad)), s)
       \<and> (\<exists>s'. load_vrd_data n d s = (Inr (), s')
              \<and> map_of (vrd_map s') n = Some (v\<lparr>data := d, is_loaded := True\<rparr>)
              \<and> (\<exists>s''. load_vrd_data n d' s' = (Inr (), s'')
                     \<and> map_of (vrd_map s'') n = Some (v\<lparr>data := d', is_loaded := True\<rparr>)))"
  using assms by (simp add: load_vrd_data_def update_conv')

theorem injection_size_check_witness:
  "load_vrd_data ''v'' [7] \<lparr>binary_sequence = [], vrd_map = [(''v'', declared ''v'' 2 0)]\<rparr> =
     (Inl (SizeMismatch ''v'' 2 1),
      \<lparr>binary_sequence = [], vrd_map = [(''v'', declared ''v'' 2 0)]\<rparr>)
   \<and> load_vrd_data ''v'' [1, 2] \<lparr>binary_sequence = [], vrd_map = [(''v'', declared ''v'' 2 0)]\<rparr> =
     (Inr (), \<lparr>binary_sequence = [],
               vrd_map = [(''v'', (declared ''v'' 2 0)\<lparr>data := [1, 2], is_loaded := True\<rparr>)]\<rparr>)
   \<and> load_vrd_data ''v'' [3, 4]
       \<lparr>binary_sequence = [],
        vrd_map = [(''v'', (declared ''v'' 2 0)\<lparr>data := [1, 2], is_loaded := True\<rparr>)]\<rparr> =
     (Inr (), \<lparr>binary_sequence = [],
               vrd_map = [(''v'', (declared ''v'' 2 0)\<lparr>data := [3, 4], is_loaded := True\<rparr>)]\<rparr>)"
  using injection_size_check
    [of "\<lparr>binary_sequence = [], vrd_map = [(''v'', declared ''v'' 2 0)]\<rparr>" "''v''"
        "declared ''v'' 2 0" "[7]" "[1, 2]" "[3, 4]"]
  by (simp add: load_vrd_data_def declared_def)

section \<open>\<open>load_vrd_data\<close>: what it leaves alone\<close>

text \<open>
  C10.  A successful \<open>load_vrd_data\<close> for \<open>n\<close> changes the data and the loaded flag of
  entry \<open>n\<close> and nothing else: the input buffer, the keys of the catalog, every entry
  under another key, and the name, size and destination address of entry \<open>n\<close> are as
  before.
\<close>

theorem injection_frame:
  assumes "load_vrd_data n d s = (Inr (), s')"
  shows "binary_sequence s' = binary_sequence s
       \<and> map fst (vrd_map s') = map fst (vrd_map s)
       \<and> filter (\<lambda>e. fst e \<noteq> n) (vrd_map s') = filter (\<lambda>e. fst e \<noteq> n) (vrd_map s)
       \<and> (\<forall>k. k \<noteq> n \<longrightarrow> map_of (vrd_map s') k = map_of (vrd_map s) k)
       \<and> (\<exists>v. map_of (vrd_map s) n = Some v
              \<and> map_of (vrd_map s') n = Some (v\<lparr>data := d, is_loaded := True\<rparr>))"
  using assms
  by (auto simp: load_vrd_data_def update_conv' update_present_keys update_other_entries
      split: option.splits if_splits)

theorem injection_frame_witness:
  "load_vrd_data ''v'' [1, 2]
     \<lparr>binary_sequence = [9], vrd_map = [(''u'', declared ''u'' 1 5), (''v'', declared ''v'' 2 0)]\<rparr> =
     (Inr (), \<lparr>binary_sequence = [9],
               vrd_map = [(''u'', declared ''u'' 1 5),
                          (''v'', (declared ''v'' 2 0)\<lparr>data := [1, 2], is_loaded := True\<rparr>)]\<rparr>)
   \<and> map_of [(''u'', declared ''u'' 1 5),
              (''v'', (declared ''v'' 2 0)\<lparr>data := [1, 2], is_loaded := True\<rparr>)] ''u'' =
     map_of [(''u'', declared ''u'' 1 5), (''v'', declared ''v'' 2 0)] ''u''"
  using injection_frame
    [of "''v''" "[1, 2]"
        "\<lparr>binary_sequence = [9],
          vrd_map = [(''u'', declared ''u'' 1 5), (''v'', declared ''v'' 2 0)]\<rparr>"
        "\<lparr>binary_sequence = [9],
          vrd_map = [(''u'', declared ''u'' 1 5),
                     (''v'', (declared ''v'' 2 0)\<lparr>data := [1, 2], is_loaded := True\<rparr>)]\<rparr>"]
  by (simp add: load_vrd_data_def declared_def)

section \<open>One declaration, loaded and emitted\<close>

text \<open>
  C2, as amended.  The input holds one \<open>VRD_INFO\<close> command, of size \<open>S\<close> and
  destination \<open>D\<close>, among \<open>APB_WRITE\<close> and \<open>DMA_WRITE\<close> commands.  After
  \<open>load_vrd_data\<close> with \<open>S\<close> bytes \<open>P\<close>, the output of \<open>generate_init_sequence\<close> is the
  commands before the declaration as they are, then a \<open>DMA_WRITE\<close> with length field
  \<open>S + 8\<close> (computed in \<open>uint32_t\<close>) and body \<open>D\<close>, \<open>S\<close>, \<open>P\<close>, then the commands after
  the declaration as they are; the declaration itself is not emitted as a command.
\<close>

theorem placeholder_substitution:
  assumes "\<forall>c\<in>set cs1. is_write c" and "\<forall>c\<in>set cs2. is_write c"
    and "length nm + 8 < 2 ^ 32" and "length P = unat S"
  shows "AppInitializer_ctor
           (Some (cmds_bytes cs1 @ cmd_bytes (VrdDecl nm S D) @ cmds_bytes cs2)) =
           Inr \<lparr>binary_sequence = cmds_bytes cs1 @ cmd_bytes (VrdDecl nm S D) @ cmds_bytes cs2,
                vrd_map = [(nm, declared nm S D)]\<rparr>
       \<and> load_vrd_data nm P
           \<lparr>binary_sequence = cmds_bytes cs1 @ cmd_bytes (VrdDecl nm S D) @ cmds_bytes cs2,
            vrd_map = [(nm, declared nm S D)]\<rparr> =
           (Inr (),
            \<lparr>binary_sequence = cmds_bytes cs1 @ cmd_bytes (VrdDecl nm S D) @ cmds_bytes cs2,
             vrd_map = [(nm, (declared nm S D)\<lparr>data := P, is_loaded := True\<rparr>)]\<rparr>)
       \<and> generate_init_sequence
           \<lparr>binary_sequence = cmds_bytes cs1 @ cmd_bytes (VrdDecl nm S D) @ cmds_bytes cs2,
            vrd_map = [(nm, (declared nm S D)\<lparr>data := P, is_loaded := True\<rparr>)]\<rparr> =
           Inr (cmds_bytes cs1 @ (DMA_WRITE # le32 (S + 8) @ le32 D @ le32 S @ P)
                @ cmds_bytes cs2)"
proof -
  let ?cs = "cs1 @ [VrdDecl nm S D] @ cs2"
  let ?buf = "cmds_bytes cs1 @ cmd_bytes (VrdDecl nm S D) @ cmds_bytes cs2"
  let ?v = "(declared nm S D)\<lparr>data := P, is_loaded := True\<rparr>"
  let ?s0 = "\<lparr>binary_sequence = ?buf, vrd_map = [(nm, declared nm S D)]\<rparr>"
  let ?s1 = "\<lparr>binary_sequence = ?buf, vrd_map = [(nm, ?v)]\<rparr>"
  have buf: "cmds_bytes ?cs = ?buf"
    by (simp add: cmds_bytes_append cmds_bytes_Cons)
  from assms have ok: "\<forall>c\<in>set ?cs. cmd_ok c"
    by (auto simp: is_write_cmd_ok)
  have cat: "catalog_of ?cs [] = [(nm, declared nm S D)]"
    using assms(1,2) by (simp add: catalog_of_append catalog_of_Cons writes_catalog_of)
  have ctor: "AppInitializer_ctor (Some ?buf) = Inr ?s0"
    using ctor_cmds [OF ok] by (simp only: buf cat)
  have load: "load_vrd_data nm P ?s0 = (Inr (), ?s1)"
    using assms(4) by (simp add: load_vrd_data_def declared_def)
  from assms have "\<forall>c\<in>set ?cs. can_emit (vrd_map ?s1) c"
    by (auto simp: is_write_can_emit)
  moreover have "binary_sequence ?s1 = cmds_bytes ?cs"
    by (simp add: cmds_bytes_append cmds_bytes_Cons)
  ultimately have "gen_loop ?s1 0 [] = Inr (concat (map (emitted (vrd_map ?s1)) ?cs))"
    by (rule gen_cmds)
  also have "concat (map (emitted (vrd_map ?s1)) ?cs) =
               cmds_bytes cs1 @ dma_bytes ?v @ cmds_bytes cs2"
    using assms(1,2) by (simp add: writes_emitted)
  finally have "generate_init_sequence ?s1 =
                  Inr (cmds_bytes cs1 @ dma_bytes ?v @ cmds_bytes cs2)"
    by (simp add: generate_init_sequence_def)
  then have gen: "generate_init_sequence ?s1 =
      Inr (cmds_bytes cs1 @ (DMA_WRITE # le32 (S + 8) @ le32 D @ le32 S @ P) @ cmds_bytes cs2)"
    using assms(4) by (simp only: dma_bytes_loaded)
  from ctor load gen show ?thesis by (intro conjI)
qed

theorem placeholder_substitution_witness:
  "AppInitializer_ctor
     (Some ([0x01, 0x08, 0, 0, 0, 0x00, 0x10, 0, 0, 0x78, 0x56, 0x34, 0x12]
            @ [0x02, 0x10, 0, 0, 0, 0x74, 0x65, 0x73, 0x74, 0x5F, 0x76, 0x72, 0x64,
               0x10, 0, 0, 0, 0, 0x20, 0, 0]
            @ [0x04, 0x0C, 0, 0, 0, 0, 0x30, 0, 0, 4, 0, 0, 0, 0xAA, 0xBB, 0xCC, 0xDD])) =
     Inr \<lparr>binary_sequence =
            [0x01, 0x08, 0, 0, 0, 0x00, 0x10, 0, 0, 0x78, 0x56, 0x34, 0x12]
            @ [0x02, 0x10, 0, 0, 0, 0x74, 0x65, 0x73, 0x74, 0x5F, 0x76, 0x72, 0x64,
               0x10, 0, 0, 0, 0, 0x20, 0, 0]
            @ [0x04, 0x0C, 0, 0, 0, 0, 0x30, 0, 0, 4, 0, 0, 0, 0xAA, 0xBB, 0xCC, 0xDD],
          vrd_map = [(''test_vrd'', declared ''test_vrd'' 16 0x2000)]\<rparr>
   \<and> generate_init_sequence
       \<lparr>binary_sequence =
          [0x01, 0x08, 0, 0, 0, 0x00, 0x10, 0, 0, 0x78, 0x56, 0x34, 0x12]
          @ [0x02, 0x10, 0, 0, 0, 0x74, 0x65, 0x73, 0x74, 0x5F, 0x76, 0x72, 0x64,
             0x10, 0, 0, 0, 0, 0x20, 0, 0]
          @ [0x04, 0x0C, 0, 0, 0, 0, 0x30, 0, 0, 4, 0, 0, 0, 0xAA, 0xBB, 0xCC, 0xDD],
        vrd_map = [(''test_vrd'',
                    (declared ''test_vrd'' 16 0x2000)
                      \<lparr>data := [0, 1, 2, 3, 4, 5, 6, 7, 8, 9, 10, 11, 12, 13, 14, 15],
                       is_loaded := True\<rparr>)]\<rparr> =
     Inr ([0x01, 0x08, 0, 0, 0, 0x00, 0x10, 0, 0, 0x78, 0x56, 0x34, 0x12]
          @ [0x04, 0x18, 0, 0, 0, 0, 0x20, 0, 0, 0x10, 0, 0, 0,
             0, 1, 2, 3, 4, 5, 6, 7, 8, 9, 10, 11, 12, 13, 14, 15]
          @ [0x04, 0x0C, 0, 0, 0, 0, 0x30, 0, 0, 4, 0, 0, 0, 0xAA, 0xBB, 0xCC, 0xDD])"
  using placeholder_substitution
    [of "[Command APB_WRITE [0x00, 0x10, 0, 0, 0x78, 0x56, 0x34, 0x12]]"
        "[Command DMA_WRITE [0, 0x30, 0, 0, 4, 0, 0, 0, 0xAA, 0xBB, 0xCC, 0xDD]]"
        "''test_vrd''" "[0, 1, 2, 3, 4, 5, 6, 7, 8, 9, 10, 11, 12, 13, 14, 15]" 16 "0x2000"]
    word_numeral_byte
  by (simp add: cmds_bytes_def le32_def append_uint32_def name_bytes_def
      APB_WRITE_def DMA_WRITE_def VRD_INFO_def)

text \<open>
  C2, as stated, also says that the bytes of the declaration occur nowhere in the
  output.  Bodies are copied without a look inside: here the body of the \<open>APB_WRITE\<close>
  is the fourteen bytes of the declaration that follows it, and they are in the output.
\<close>

theorem declaration_bytes_in_output:
  "AppInitializer_ctor
     (Some ([0x01, 0x0E, 0, 0, 0]
            @ [0x02, 0x09, 0, 0, 0, 0x76, 0x02, 0, 0, 0, 0, 0x20, 0, 0]
            @ [0x02, 0x09, 0, 0, 0, 0x76, 0x02, 0, 0, 0, 0, 0x20, 0, 0])) =
     Inr \<lparr>binary_sequence =
            [0x01, 0x0E, 0, 0, 0]
            @ [0x02, 0x09, 0, 0, 0, 0x76, 0x02, 0, 0, 0, 0, 0x20, 0, 0]
            @ [0x02, 0x09, 0, 0, 0, 0x76, 0x02, 0, 0, 0, 0, 0x20, 0, 0],
          vrd_map = [(''v'', declared ''v'' 2 0x2000)]\<rparr>
   \<and> load_vrd_data ''v'' [0xAA, 0xBB]
       \<lparr>binary_sequence =
          [0x01, 0x0E, 0, 0, 0]
          @ [0x02, 0x09, 0, 0, 0, 0x76, 0x02, 0, 0, 0, 0, 0x20, 0, 0]
          @ [0x02, 0x09, 0, 0, 0, 0x76, 0x02, 0, 0, 0, 0, 0x20, 0, 0],
        vrd_map = [(''v'', declared ''v'' 2 0x2000)]\<rparr> =
     (Inr (),
      \<lparr>binary_sequence =
          [0x01, 0x0E, 0, 0, 0]
          @ [0x02, 0x09, 0, 0, 0, 0x76, 0x02, 0, 0, 0, 0, 0x20, 0, 0]
          @ [0x02, 0x09, 0, 0, 0, 0x76, 0x02, 0, 0, 0, 0, 0x20, 0, 0],
        vrd_map = [(''v'', (declared ''v'' 2 0x2000)\<lparr>data := [0xAA, 0xBB], is_loaded := True\<rparr>)]\<rparr>)
   \<and> generate_init_sequence
       \<lparr>binary_sequence =
          [0x01, 0x0E, 0, 0, 0]
          @ [0x02, 0x09, 0, 0, 0, 0x76, 0x02, 0, 0, 0, 0, 0x20, 0, 0]
          @ [0x02, 0x09, 0, 0, 0, 0x76, 0x02, 0, 0, 0, 0, 0x20, 0, 0],
        vrd_map = [(''v'', (declared ''v'' 2 0x2000)\<lparr>data := [0xAA, 0xBB], is_loaded := True\<rparr>)]\<rparr> =
     Inr ([0x01, 0x0E, 0, 0, 0]
          @ [0x02, 0x09, 0, 0, 0, 0x76, 0x02, 0, 0, 0, 0, 0x20, 0, 0]
          @ [0x04, 0x0A, 0, 0, 0, 0, 0x20, 0, 0, 0x02, 0, 0, 0, 0xAA, 0xBB])"
  by (simp add: AppInitializer_ctor_def parse_binary_sequence_def parse_loop.simps
      parse_step_def read_uint32_def read_string_def load_vrd_data_def declared_def
      generate_init_sequence_def gen_loop.simps gen_step_def copy_bytes_def
      append_uint32_def APB_WRITE_def DMA_WRITE_def VRD_INFO_def Let_def char_of_def bit_0)

section \<open>Two declarations of one name\<close>

text \<open>
  C7.  Of two \<open>VRD_INFO\<close> commands with the same name the catalog keeps the size and
  the destination address of the second, in one entry (the count is one); after
  \<open>load_vrd_data\<close> for the name, \<open>generate_init_sequence\<close> writes the \<open>DMA_WRITE\<close> with
  the size and address of the second declaration, at the place of each of the two.
\<close>

theorem duplicate_name_last_wins:
  assumes "\<forall>c\<in>set cs1. is_write c" and "\<forall>c\<in>set cs2. is_write c"
    and "\<forall>c\<in>set cs3. is_write c"
    and "length nm + 8 < 2 ^ 32" and "length P = unat S2"
  shows "AppInitializer_ctor
           (Some (cmds_bytes cs1 @ cmd_bytes (VrdDecl nm S1 D1) @ cmds_bytes cs2
                  @ cmd_bytes (VrdDecl nm S2 D2) @ cmds_bytes cs3)) =
           Inr \<lparr>binary_sequence = cmds_bytes cs1 @ cmd_bytes (VrdDecl nm S1 D1) @ cmds_bytes cs2
                  @ cmd_bytes (VrdDecl nm S2 D2) @ cmds_bytes cs3,
                vrd_map = [(nm, declared nm S2 D2)]\<rparr>
       \<and> get_vrd_count
           \<lparr>binary_sequence = cmds_bytes cs1 @ cmd_bytes (VrdDecl nm S1 D1) @ cmds_bytes cs2
              @ cmd_bytes (VrdDecl nm S2 D2) @ cmds_bytes cs3,
            vrd_map = [(nm, declared nm S2 D2)]\<rparr> = 1
       \<and> load_vrd_data nm P
           \<lparr>binary_sequence = cmds_bytes cs1 @ cmd_bytes (VrdDecl nm S1 D1) @ cmds_bytes cs2
              @ cmd_bytes (VrdDecl nm S2 D2) @ cmds_bytes cs3,
            vrd_map = [(nm, declared nm S2 D2)]\<rparr> =
           (Inr (),
            \<lparr>binary_sequence = cmds_bytes cs1 @ cmd_bytes (VrdDecl nm S1 D1) @ cmds_bytes cs2
               @ cmd_bytes (VrdDecl nm S2 D2) @ cmds_bytes cs3,
             vrd_map = [(nm, (declared nm S2 D2)\<lparr>data := P, is_loaded := True\<rparr>)]\<rparr>)
       \<and> generate_init_sequence
           \<lparr>binary_sequence = cmds_bytes cs1 @ cmd_bytes (VrdDecl nm S1 D1) @ cmds_bytes cs2
              @ cmd_bytes (VrdDecl nm S2 D2) @ cmds_bytes cs3,
            vrd_map = [(nm, (declared nm S2 D2)\<lparr>data := P, is_loaded := True\<rparr>)]\<rparr> =
           Inr (cmds_bytes cs1 @ (DMA_WRITE # le32 (S2 + 8) @ le32 D2 @ le32 S2 @ P)
                @ cmds_bytes cs2 @ (DMA_WRITE # le32 (S2 + 8) @ le32 D2 @ le32 S2 @ P)
                @ cmds_bytes cs3)"
proof -
  let ?cs = "cs1 @ [VrdDecl nm S1 D1] @ cs2 @ [VrdDecl nm S2 D2] @ cs3"
  let ?buf = "cmds_bytes cs1 @ cmd_bytes (VrdDecl nm S1 D1) @ cmds_bytes cs2
                @ cmd_bytes (VrdDecl nm S2 D2) @ cmds_bytes cs3"
  let ?v = "(declared nm S2 D2)\<lparr>data := P, is_loaded := True\<rparr>"
  let ?s0 = "\<lparr>binary_sequence = ?buf, vrd_map = [(nm, declared nm S2 D2)]\<rparr>"
  let ?s1 = "\<lparr>binary_sequence = ?buf, vrd_map = [(nm, ?v)]\<rparr>"
  have buf: "cmds_bytes ?cs = ?buf"
    by (simp add: cmds_bytes_append cmds_bytes_Cons)
  from assms have ok: "\<forall>c\<in>set ?cs. cmd_ok c"
    by (auto simp: is_write_cmd_ok)
  have cat: "catalog_of ?cs [] = [(nm, declared nm S2 D2)]"
    using assms(1,2,3) by (simp add: catalog_of_append catalog_of_Cons writes_catalog_of)
  have ctor: "AppInitializer_ctor (Some ?buf) = Inr ?s0"
    using ctor_cmds [OF ok] by (simp only: buf cat)
  have count: "get_vrd_count ?s0 = 1"
    by (simp add: get_vrd_count_def)
  have load: "load_vrd_data nm P ?s0 = (Inr (), ?s1)"
    using assms(5) by (simp add: load_vrd_data_def declared_def)
  from assms have "\<forall>c\<in>set ?cs. can_emit (vrd_map ?s1) c"
    by (auto simp: is_write_can_emit)
  moreover have "binary_sequence ?s1 = cmds_bytes ?cs"
    by (simp add: cmds_bytes_append cmds_bytes_Cons)
  ultimately have "gen_loop ?s1 0 [] = Inr (concat (map (emitted (vrd_map ?s1)) ?cs))"
    by (rule gen_cmds)
  also have "concat (map (emitted (vrd_map ?s1)) ?cs) =
               cmds_bytes cs1 @ dma_bytes ?v @ cmds_bytes cs2 @ dma_bytes ?v @ cmds_bytes cs3"
    using assms(1,2,3) by (simp add: writes_emitted)
  finally have "generate_init_sequence ?s1 =
      Inr (cmds_bytes cs1 @ dma_bytes ?v @ cmds_bytes cs2 @ dma_bytes ?v @ cmds_bytes cs3)"
    by (simp add: generate_init_sequence_def)
  then have gen: "generate_init_sequence ?s1 =
      Inr (cmds_bytes cs1 @ (DMA_WRITE # le32 (S2 + 8) @ le32 D2 @ le32 S2 @ P)
           @ cmds_bytes cs2 @ (DMA_WRITE # le32 (S2 + 8) @ le32 D2 @ le32 S2 @ P)
           @ cmds_bytes cs3)"
    using assms(5) by (simp only: dma_bytes_loaded)
  from ctor count load gen show ?thesis by (intro conjI)
qed

theorem duplicate_name_last_wins_witness:
  "AppInitializer_ctor
     (Some ([0x02, 0x09, 0, 0, 0, 0x76, 0x01, 0, 0, 0, 0x10, 0, 0, 0]
            @ [0x01, 0x01, 0, 0, 0, 0x07]
            @ [0x02, 0x09, 0, 0, 0, 0x76, 0x02, 0, 0, 0, 0x20, 0, 0, 0])) =
     Inr \<lparr>binary_sequence =
            [0x02, 0x09, 0, 0, 0, 0x76, 0x01, 0, 0, 0, 0x10, 0, 0, 0]
            @ [0x01, 0x01, 0, 0, 0, 0x07]
            @ [0x02, 0x09, 0, 0, 0, 0x76, 0x02, 0, 0, 0, 0x20, 0, 0, 0],
          vrd_map = [(''v'', declared ''v'' 2 0x20)]\<rparr>
   \<and> generate_init_sequence
       \<lparr>binary_sequence =
          [0x02, 0x09, 0, 0, 0, 0x76, 0x01, 0, 0, 0, 0x10, 0, 0, 0]
          @ [0x01, 0x01, 0, 0, 0, 0x07]
          @ [0x02, 0x09, 0, 0, 0, 0x76, 0x02, 0, 0, 0, 0x20, 0, 0, 0],
        vrd_map = [(''v'', (declared ''v'' 2 0x20)\<lparr>data := [0xAA, 0xBB], is_loaded := True\<rparr>)]\<rparr> =
     Inr ([0x04, 0x0A, 0, 0, 0, 0x20, 0, 0, 0, 0x02, 0, 0, 0, 0xAA, 0xBB]
          @ [0x01, 0x01, 0, 0, 0, 0x07]
          @ [0x04, 0x0A, 0, 0, 0, 0x20, 0, 0, 0, 0x02, 0, 0, 0, 0xAA, 0xBB])"
  using duplicate_name_last_wins
    [of "[]" "[Command APB_WRITE [0x07]]" "[]" "''v''" "[0xAA, 0xBB]" 2 1 "0x10" "0x20"]
  by (simp add: cmds_bytes_def le32_def append_uint32_def name_bytes_def
      APB_WRITE_def DMA_WRITE_def VRD_INFO_def)

section \<open>The invariant of the catalog\<close>

text \<open>
  C8.  In every entry that is marked loaded the stored data is as long as the declared
  size.  This holds for the object the constructor returns, and \<open>load_vrd_data\<close>
  keeps it whether it succeeds or throws; the keys, declared sizes and destination
  addresses of the catalog are the same after \<open>load_vrd_data\<close> as before, in either
  outcome.  \<open>generate_init_sequence\<close> is a \<open>const\<close> member function, here a function
  of the object that returns no new object, so it leaves the catalog as it is.
\<close>

theorem catalog_invariant:
  "(AppInitializer_ctor file = Inr s0 \<longrightarrow> payload_sized s0)
   \<and> (payload_sized s \<longrightarrow> payload_sized (snd (load_vrd_data n d s)))
   \<and> map entry_decl (vrd_map (snd (load_vrd_data n d s))) = map entry_decl (vrd_map s)"
proof (intro conjI impI)
  assume "AppInitializer_ctor file = Inr s0"
  then have "\<forall>e\<in>set (vrd_map s0). \<not> is_loaded (snd e)"
    by (rule ctor_unloaded)
  then show "payload_sized s0"
    by (simp add: payload_sized_def list_all_iff)
next
  assume "payload_sized s"
  then show "payload_sized (snd (load_vrd_data n d s))"
    by (rule load_payload_sized)
next
  show "map entry_decl (vrd_map (snd (load_vrd_data n d s))) = map entry_decl (vrd_map s)"
    by (rule load_entry_decls)
qed


theorem catalog_invariant_witness:
  "AppInitializer_ctor (Some [0x02, 0x09, 0, 0, 0, 0x76, 0x02, 0, 0, 0, 0x20, 0, 0, 0]) =
     Inr \<lparr>binary_sequence = [0x02, 0x09, 0, 0, 0, 0x76, 0x02, 0, 0, 0, 0x20, 0, 0, 0],
          vrd_map = [(''v'', declared ''v'' 2 0x20)]\<rparr>
   \<and> payload_sized
       \<lparr>binary_sequence = [0x02, 0x09, 0, 0, 0, 0x76, 0x02, 0, 0, 0, 0x20, 0, 0, 0],
        vrd_map = [(''v'', declared ''v'' 2 0x20)]\<rparr>
   \<and> payload_sized
       \<lparr>binary_sequence = [0x02, 0x09, 0, 0, 0, 0x76, 0x02, 0, 0, 0, 0x20, 0, 0, 0],
        vrd_map = [(''v'', (declared ''v'' 2 0x20)\<lparr>data := [0xAA, 0xBB], is_loaded := True\<rparr>)]\<rparr>
   \<and> payload_sized
       (snd (load_vrd_data ''v'' [0x01]
          \<lparr>binary_sequence = [0x02, 0x09, 0, 0, 0, 0x76, 0x02, 0, 0, 0, 0x20, 0, 0, 0],
           vrd_map = [(''v'', (declared ''v'' 2 0x20)\<lparr>data := [0xAA, 0xBB], is_loaded := True\<rparr>)]\<rparr>))"
  using catalog_invariant
    [of "Some [0x02, 0x09, 0, 0, 0, 0x76, 0x02, 0, 0, 0, 0x20, 0, 0, 0]"
        "\<lparr>binary_sequence = [0x02, 0x09, 0, 0, 0, 0x76, 0x02, 0, 0, 0, 0x20, 0, 0, 0],
          vrd_map = [(''v'', declared ''v'' 2 0x20)]\<rparr>"
        "\<lparr>binary_sequence = [0x02, 0x09, 0, 0, 0, 0x76, 0x02, 0, 0, 0, 0x20, 0, 0, 0],
          vrd_map = [(''v'', (declared ''v'' 2 0x20)\<lparr>data := [0xAA, 0xBB], is_loaded := True\<rparr>)]\<rparr>"
        "''v''" "[0x01]"]
    ctor_cmds [of "[VrdDecl ''v'' 2 0x20]"]
  by (simp add: payload_sized_def declared_def load_vrd_data_def cmds_bytes_def le32_def
      append_uint32_def name_bytes_def VRD_INFO_def catalog_of_def)

section \<open>Tags without a case in the emission loop\<close>

text \<open>
  C6.  The input holds a command with a tag other than \<open>0x01\<close>, \<open>0x02\<close> and \<open>0x04\<close>
  (\<open>PM_BINARY\<close>, \<open>0x03\<close>, is one), after commands with these three tags only.  The
  constructor accepts the input: the command is skipped like every command that is no
  declaration.  On an object with this input in which every declared entry is loaded,
  \<open>generate_init_sequence\<close> throws for the unknown command type and reports the tag as
  a number.
\<close>

theorem unknown_command_rejected:
  assumes "\<forall>c\<in>set cs1. cmd_ok c \<and> known_kind c" and "\<forall>c\<in>set cs2. cmd_ok c"
    and "t \<noteq> APB_WRITE" and "t \<noteq> VRD_INFO" and "t \<noteq> DMA_WRITE"
    and "length body < 2 ^ 32"
  shows "AppInitializer_ctor
           (Some (cmds_bytes cs1 @ cmd_bytes (Command t body) @ cmds_bytes cs2)) =
           Inr \<lparr>binary_sequence = cmds_bytes cs1 @ cmd_bytes (Command t body) @ cmds_bytes cs2,
                vrd_map = catalog_of (cs1 @ cs2) []\<rparr>
       \<and> (binary_sequence s = cmds_bytes cs1 @ cmd_bytes (Command t body) @ cmds_bytes cs2
          \<and> map fst (vrd_map s) = map fst (catalog_of (cs1 @ cs2) [])
          \<and> (\<forall>e\<in>set (vrd_map s). is_loaded (snd e))
          \<longrightarrow> generate_init_sequence s = Inl (UnknownCommandType (unat t)))"
proof (intro conjI impI)
  let ?cs = "cs1 @ Command t body # cs2"
  let ?buf = "cmds_bytes cs1 @ cmd_bytes (Command t body) @ cmds_bytes cs2"
  have buf: "cmds_bytes ?cs = ?buf"
    by (simp only: cmds_bytes_append cmds_bytes_Cons)
  from assms have ok: "\<forall>c\<in>set ?cs. cmd_ok c"
    by auto
  have cat: "catalog_of ?cs [] = catalog_of (cs1 @ cs2) []"
    by (simp add: catalog_of_append catalog_of_Cons)
  show "AppInitializer_ctor (Some ?buf) =
          Inr \<lparr>binary_sequence = ?buf, vrd_map = catalog_of (cs1 @ cs2) []\<rparr>"
    using ctor_cmds [OF ok] by (simp only: buf cat)
next
  let ?buf = "cmds_bytes cs1 @ cmd_bytes (Command t body) @ cmds_bytes cs2"
  define len :: u32 where "len = of_nat (length body)"
  assume s: "binary_sequence s = ?buf
     \<and> map fst (vrd_map s) = map fst (catalog_of (cs1 @ cs2) [])
     \<and> (\<forall>e\<in>set (vrd_map s). is_loaded (snd e))"
  then have b: "binary_sequence s = [] @ cmds_bytes cs1 @ (cmd_bytes (Command t body) @ cmds_bytes cs2)"
    and b1: "binary_sequence s = (cmds_bytes cs1 @ [t]) @ le32 len @ (body @ cmds_bytes cs2)"
    by (simp_all add: len_def)
  from s have "set (map fst (vrd_map s)) = set (map fst (catalog_of (cs1 @ cs2) []))"
    by simp
  then have keys: "fst ` set (catalog_of (cs1 @ cs2) []) \<subseteq> fst ` set (vrd_map s)"
    by simp
  have keys1: "fst ` set (catalog_of cs1 []) \<subseteq> fst ` set (vrd_map s)"
    using keys keys_catalog_of [of "catalog_of cs1 []" cs2]
    by (simp only: catalog_of_append)
  have "\<forall>c\<in>set cs1. can_emit (vrd_map s) c"
    using assms(1) keys1 by (auto intro: known_can_emit)
  from gen_loop_cmds [OF this b, of "[]"]
  have prefix: "gen_loop s 0 [] =
      gen_loop s (length (cmds_bytes cs1)) (concat (map (emitted (vrd_map s)) cs1))"
    by simp
  have tag: "binary_sequence s ! length (cmds_bytes cs1) = t"
    by (simp add: b1 nth_append)
  have len: "read_uint32 (binary_sequence s) (length (cmds_bytes cs1) + 1) = Inr len"
    unfolding b1 by (rule read_uint32_le32) simp
  have "length (cmds_bytes cs1) < length (binary_sequence s)"
    by (simp add: b1)
  then have "gen_loop s (length (cmds_bytes cs1)) (concat (map (emitted (vrd_map s)) cs1)) =
               Inl (UnknownCommandType (unat t))"
    using gen_step_unknown [OF tag assms(3,4,5) len] by (rule gen_loop_fail)
  with prefix have "gen_loop s 0 [] = Inl (UnknownCommandType (unat t))"
    by simp
  moreover from s have "verify_loaded (vrd_map s) = Inr ()"
    by (simp add: verify_loaded_all)
  ultimately show "generate_init_sequence s = Inl (UnknownCommandType (unat t))"
    by (simp add: generate_init_sequence_def)
qed

theorem unknown_command_rejected_witness:
  "AppInitializer_ctor
     (Some ([0x02, 0x09, 0, 0, 0, 0x76, 0x02, 0, 0, 0, 0x20, 0, 0, 0]
            @ [0x03, 0x03, 0, 0, 0, 1, 2, 3]
            @ [0x01, 0x01, 0, 0, 0, 0x07])) =
     Inr \<lparr>binary_sequence =
            [0x02, 0x09, 0, 0, 0, 0x76, 0x02, 0, 0, 0, 0x20, 0, 0, 0]
            @ [0x03, 0x03, 0, 0, 0, 1, 2, 3]
            @ [0x01, 0x01, 0, 0, 0, 0x07],
          vrd_map = [(''v'', declared ''v'' 2 0x20)]\<rparr>
   \<and> generate_init_sequence
       \<lparr>binary_sequence =
          [0x02, 0x09, 0, 0, 0, 0x76, 0x02, 0, 0, 0, 0x20, 0, 0, 0]
          @ [0x03, 0x03, 0, 0, 0, 1, 2, 3]
          @ [0x01, 0x01, 0, 0, 0, 0x07],
        vrd_map = [(''v'', (declared ''v'' 2 0x20)\<lparr>data := [0xAA, 0xBB], is_loaded := True\<rparr>)]\<rparr> =
     Inl (UnknownCommandType 3)"
  using unknown_command_rejected
    [of "[VrdDecl ''v'' 2 0x20]" "[Command APB_WRITE [0x07]]" PM_BINARY "[1, 2, 3]"
        "\<lparr>binary_sequence =
            [0x02, 0x09, 0, 0, 0, 0x76, 0x02, 0, 0, 0, 0x20, 0, 0, 0]
            @ [0x03, 0x03, 0, 0, 0, 1, 2, 3]
            @ [0x01, 0x01, 0, 0, 0, 0x07],
          vrd_map = [(''v'', (declared ''v'' 2 0x20)\<lparr>data := [0xAA, 0xBB], is_loaded := True\<rparr>)]\<rparr>"]
  by (simp add: cmds_bytes_def le32_def append_uint32_def name_bytes_def catalog_of_def
      APB_WRITE_def DMA_WRITE_def VRD_INFO_def PM_BINARY_def declared_def)

section \<open>Lengths that do not fit the buffer\<close>

text \<open>
  C1, as amended.  \<open>parse_binary_sequence\<close> checks no length and throws nothing.  After
  any well-formed commands:
  \<^item> a command other than a \<open>VRD_INFO\<close> whose length field is larger than the bytes
    that are left ends the loop, and the constructor succeeds with the catalog of the
    commands before it;
  \<^item> a \<open>VRD_INFO\<close> command whose name and two trailing words do not fit in the bytes
    that are left, the name length being \<open>length - 8\<close> in \<open>uint32_t\<close>, makes the loop
    read outside the buffer; a length field below 8 is such a case whenever fewer than
    \<open>2 ^ 32\<close> bytes follow the header;
  \<^item> one to four bytes that are left for a command make the loop read outside the buffer;
  \<^item> reading outside the buffer is the only way the parse fails.
  Reading outside the buffer is undefined behaviour of the program, not an exception it
  reports.
\<close>

theorem parse_without_length_checks:
  assumes "\<forall>c\<in>set cs. cmd_ok c"
  shows "(t \<noteq> VRD_INFO \<and> length tail < unat len \<longrightarrow>
            AppInitializer_ctor (Some (cmds_bytes cs @ t # le32 len @ tail)) =
              Inr \<lparr>binary_sequence = cmds_bytes cs @ t # le32 len @ tail,
                   vrd_map = catalog_of cs []\<rparr>)
       \<and> (length tail < unat (len - 8) + 8 \<longrightarrow>
            AppInitializer_ctor (Some (cmds_bytes cs @ VRD_INFO # le32 len @ tail)) =
              Inl OutOfBounds)
       \<and> (unat len < 8 \<and> length tail < 2 ^ 32 \<longrightarrow>
            AppInitializer_ctor (Some (cmds_bytes cs @ VRD_INFO # le32 len @ tail)) =
              Inl OutOfBounds)
       \<and> (hdr \<noteq> [] \<and> length hdr < 5 \<longrightarrow>
            AppInitializer_ctor (Some (cmds_bytes cs @ hdr)) = Inl OutOfBounds)
       \<and> (\<forall>e. AppInitializer_ctor (Some buf) = Inl e \<longrightarrow> e = OutOfBounds)"
proof -
  have prefix: "parse_loop (cmds_bytes cs @ rest) 0 [] =
                  parse_loop (cmds_bytes cs @ rest) (length (cmds_bytes cs)) (catalog_of cs [])"
    for rest
    using parse_loop_cmds [OF assms, of "[]" rest "[]"] by simp
  have skip: "AppInitializer_ctor (Some (cmds_bytes cs @ t # le32 len @ tail)) =
                Inr \<lparr>binary_sequence = cmds_bytes cs @ t # le32 len @ tail,
                     vrd_map = catalog_of cs []\<rparr>"
    if "t \<noteq> VRD_INFO" and "length tail < unat len"
  proof -
    let ?buf = "cmds_bytes cs @ t # le32 len @ tail"
    let ?pos = "length (cmds_bytes cs)"
    have b: "?buf = (cmds_bytes cs @ [t]) @ le32 len @ tail" by simp
    have tag: "?buf ! ?pos \<noteq> VRD_INFO"
      using that(1) by (simp add: nth_append)
    have len: "read_uint32 ?buf (?pos + 1) = Inr len"
      unfolding b by (rule read_uint32_le32) simp
    have "?pos < length ?buf" by simp
    then have "parse_loop ?buf ?pos (catalog_of cs []) =
                 parse_loop ?buf (?pos + 5 + unat len) (catalog_of cs [])"
      using parse_step_skip [OF tag len] by (rule parse_loop_step)
    also have "\<dots> = Inr (catalog_of cs [])"
      using that(2) by (intro parse_loop_end) simp
    finally show ?thesis
      by (simp add: AppInitializer_ctor_def parse_binary_sequence_def prefix)
  qed
  have short: "AppInitializer_ctor (Some (cmds_bytes cs @ VRD_INFO # le32 len @ tail)) =
                 Inl OutOfBounds"
    if "length tail < unat (len - 8) + 8"
  proof -
    let ?buf = "cmds_bytes cs @ VRD_INFO # le32 len @ tail"
    let ?pos = "length (cmds_bytes cs)"
    have b: "?buf = (cmds_bytes cs @ [VRD_INFO]) @ le32 len @ tail" by simp
    have tag: "?buf ! ?pos = VRD_INFO"
      by (simp add: nth_append)
    have len: "read_uint32 ?buf (?pos + 1) = Inr len"
      unfolding b by (rule read_uint32_le32) simp
    have "length ?buf < ?pos + 5 + unat (len - 8) + 8"
      using that by simp
    with tag len have "parse_step ?buf ?pos (catalog_of cs []) = Inl OutOfBounds"
      by (rule parse_step_short_decl)
    moreover have "?pos < length ?buf" by simp
    ultimately have "parse_loop ?buf ?pos (catalog_of cs []) = Inl OutOfBounds"
      by (simp add: parse_loop_fail)
    then show ?thesis
      by (simp add: AppInitializer_ctor_def parse_binary_sequence_def prefix)
  qed
  have wrapped: "AppInitializer_ctor (Some (cmds_bytes cs @ VRD_INFO # le32 len @ tail)) =
                   Inl OutOfBounds"
    if "unat len < 8" and "length tail < 2 ^ 32"
  proof -
    from that(1) have "unat (len - 8) + 8 = unat len + 2 ^ 32"
      by (simp add: unat_wrapped_length)
    with that(2) have "length tail < unat (len - 8) + 8"
      by simp
    then show ?thesis by (rule short)
  qed
  have truncated: "AppInitializer_ctor (Some (cmds_bytes cs @ hdr)) = Inl OutOfBounds"
    if "hdr \<noteq> []" and "length hdr < 5"
  proof -
    let ?buf = "cmds_bytes cs @ hdr"
    let ?pos = "length (cmds_bytes cs)"
    from that(2) have "read_uint32 ?buf (?pos + 1) = Inl OutOfBounds"
      by (simp add: read_uint32_def)
    then have "parse_step ?buf ?pos (catalog_of cs []) = Inl OutOfBounds"
      by (simp add: parse_step_def)
    moreover from that(1) have "?pos < length ?buf" by simp
    ultimately have "parse_loop ?buf ?pos (catalog_of cs []) = Inl OutOfBounds"
      by (simp add: parse_loop_fail)
    then show ?thesis
      by (simp add: AppInitializer_ctor_def parse_binary_sequence_def prefix)
  qed
  have only: "e = OutOfBounds" if "AppInitializer_ctor (Some buf) = Inl e" for e
    using that
    by (auto simp: AppInitializer_ctor_def parse_binary_sequence_def split: sum.splits
        dest: parse_loop_error)
  from skip short wrapped truncated only show ?thesis
    by blast
qed

theorem parse_without_length_checks_witness:
  "AppInitializer_ctor (Some ([0x01, 0x01, 0, 0, 0, 0x07] @ [0x04, 0x10, 0, 0, 0, 1, 2])) =
     Inr \<lparr>binary_sequence = [0x01, 0x01, 0, 0, 0, 0x07] @ [0x04, 0x10, 0, 0, 0, 1, 2],
          vrd_map = []\<rparr>
   \<and> AppInitializer_ctor (Some ([0x01, 0x01, 0, 0, 0, 0x07] @ [0x02, 0x10, 0, 0, 0, 1, 2])) =
     Inl OutOfBounds
   \<and> AppInitializer_ctor (Some ([0x01, 0x01, 0, 0, 0, 0x07] @ [0x02, 0x03, 0, 0, 0, 1, 2, 3])) =
     Inl OutOfBounds
   \<and> AppInitializer_ctor (Some ([0x01, 0x01, 0, 0, 0, 0x07] @ [0x01, 0x10, 0])) =
     Inl OutOfBounds"
  using parse_without_length_checks
      [of "[Command APB_WRITE [0x07]]" DMA_WRITE "[1, 2]" "0x10" "[0x01, 0x10, 0]" "[]"]
    parse_without_length_checks
      [of "[Command APB_WRITE [0x07]]" DMA_WRITE "[1, 2, 3]" "0x03" "[0x01, 0x10, 0]" "[]"]
  by (simp add: cmds_bytes_def le32_def append_uint32_def catalog_of_def
      APB_WRITE_def DMA_WRITE_def VRD_INFO_def)

text \<open>
  C1, as stated, has the constructor fail whenever a length field points past the
  end of the buffer.  Here an \<open>APB_WRITE\<close> announces sixteen bytes and none follows:
  the loop adds sixteen to the position, finds it past the end, and the constructor
  returns.
\<close>

theorem overlong_write_accepted:
  "AppInitializer_ctor (Some [0x01, 0x10, 0, 0, 0]) =
     Inr \<lparr>binary_sequence = [0x01, 0x10, 0, 0, 0], vrd_map = []\<rparr>"
  by (simp add: AppInitializer_ctor_def parse_binary_sequence_def parse_loop.simps
      parse_step_def read_uint32_def VRD_INFO_def)

section \<open>The lookup of the emission loop\<close>

text \<open>
  C9, as amended.  For a buffer shorter than \<open>2 ^ 32\<close> bytes that the constructor
  accepts, and an object with this buffer whose catalog has the keys the constructor
  has inserted (\<open>load_vrd_data\<close> keeps the keys), \<open>vrd_map_.at\<close> in
  \<open>generate_init_sequence\<close> never throws: the emission loop visits the positions the
  parse loop has visited and reads the names the parse loop has inserted.
\<close>

theorem emission_lookup_succeeds:
  assumes "AppInitializer_ctor (Some buf) = Inr s0" and "length buf < 2 ^ 32"
    and "binary_sequence s = buf" and "fst ` set (vrd_map s0) \<subseteq> fst ` set (vrd_map s)"
  shows "generate_init_sequence s \<noteq> Inl MapAtOutOfRange"
proof -
  from assms(1) obtain m where m: "parse_loop buf 0 [] = Inr m" and s0: "vrd_map s0 = m"
    by (auto simp: AppInitializer_ctor_def parse_binary_sequence_def split: sum.splits)
  from assms(4) s0 have "fst ` set m \<subseteq> fst ` set (vrd_map s)"
    by simp
  with m assms(3,2) have "gen_loop s 0 [] \<noteq> Inl MapAtOutOfRange"
    by (rule gen_loop_follows_parse_loop)
  then show ?thesis
    by (auto simp: generate_init_sequence_def split: sum.splits
        dest: verify_loaded_error)
qed

theorem emission_lookup_succeeds_witness:
  "length [0x02, 0x09, 0, 0, 0, 0x76, 0x02, 0, 0, 0, 0x20, 0, 0, 0 :: byte] < 2 ^ 32
   \<and> AppInitializer_ctor (Some [0x02, 0x09, 0, 0, 0, 0x76, 0x02, 0, 0, 0, 0x20, 0, 0, 0]) =
     Inr \<lparr>binary_sequence = [0x02, 0x09, 0, 0, 0, 0x76, 0x02, 0, 0, 0, 0x20, 0, 0, 0],
          vrd_map = [(''v'', declared ''v'' 2 0x20)]\<rparr>
   \<and> generate_init_sequence
       \<lparr>binary_sequence = [0x02, 0x09, 0, 0, 0, 0x76, 0x02, 0, 0, 0, 0x20, 0, 0, 0],
        vrd_map = [(''v'', (declared ''v'' 2 0x20)\<lparr>data := [0xAA, 0xBB], is_loaded := True\<rparr>)]\<rparr>
     \<noteq> Inl MapAtOutOfRange"
  using emission_lookup_succeeds
    [of "[0x02, 0x09, 0, 0, 0, 0x76, 0x02, 0, 0, 0, 0x20, 0, 0, 0]"
        "\<lparr>binary_sequence = [0x02, 0x09, 0, 0, 0, 0x76, 0x02, 0, 0, 0, 0x20, 0, 0, 0],
          vrd_map = [(''v'', declared ''v'' 2 0x20)]\<rparr>"
        "\<lparr>binary_sequence = [0x02, 0x09, 0, 0, 0, 0x76, 0x02, 0, 0, 0, 0x20, 0, 0, 0],
          vrd_map = [(''v'', (declared ''v'' 2 0x20)\<lparr>data := [0xAA, 0xBB], is_loaded := True\<rparr>)]\<rparr>"]
    ctor_cmds [of "[VrdDecl ''v'' 2 0x20]"]
  by (simp add: cmds_bytes_def le32_def append_uint32_def name_bytes_def VRD_INFO_def
      catalog_of_def)

text \<open>
  C9, as stated, is about every buffer the constructor accepts.  On \<open>wrap_input\<close>
  the parse loop takes the first command to fill the buffer, with \<open>2 ^ 32 - 8\<close> bytes of
  name, and stops; the emission loop advances by the length field 0, takes the bytes
  at position 5 for a \<open>VRD_INFO\<close> command, reads the empty name, and \<open>at\<close> throws.
\<close>

theorem wrapped_name_length_lookup_fails:
  "AppInitializer_ctor (Some wrap_input) =
     Inr \<lparr>binary_sequence = wrap_input, vrd_map = [(wrap_name, declared wrap_name 0 0)]\<rparr>
   \<and> load_vrd_data wrap_name []
       \<lparr>binary_sequence = wrap_input, vrd_map = [(wrap_name, declared wrap_name 0 0)]\<rparr> =
     (Inr (),
      \<lparr>binary_sequence = wrap_input,
       vrd_map = [(wrap_name, (declared wrap_name 0 0)\<lparr>data := [], is_loaded := True\<rparr>)]\<rparr>)
   \<and> generate_init_sequence
       \<lparr>binary_sequence = wrap_input,
        vrd_map = [(wrap_name, (declared wrap_name 0 0)\<lparr>data := [], is_loaded := True\<rparr>)]\<rparr> =
     Inl MapAtOutOfRange"
proof (intro conjI)
  let ?s1 = "\<lparr>binary_sequence = wrap_input,
       vrd_map = [(wrap_name, (declared wrap_name 0 0)\<lparr>data := [], is_loaded := True\<rparr>)]\<rparr>"
  show "AppInitializer_ctor (Some wrap_input) =
     Inr \<lparr>binary_sequence = wrap_input, vrd_map = [(wrap_name, declared wrap_name 0 0)]\<rparr>"
    by (simp add: AppInitializer_ctor_def parse_binary_sequence_def wrap_parse_loop)
  show "load_vrd_data wrap_name []
       \<lparr>binary_sequence = wrap_input, vrd_map = [(wrap_name, declared wrap_name 0 0)]\<rparr> =
     (Inr (), ?s1)"
    by (simp add: load_vrd_data_def declared_def)
  have "gen_loop ?s1 0 [] = gen_loop ?s1 5 [0x04, 0x08, 0, 0, 0, 0, 0, 0, 0, 0, 0, 0, 0]"
    using wrap_gen_step_first by (intro gen_loop_step) (simp add: wrap_input_length)
  also have "\<dots> = Inl MapAtOutOfRange"
    using wrap_gen_step_second by (intro gen_loop_fail) (simp add: wrap_input_length)
  finally show "generate_init_sequence ?s1 = Inl MapAtOutOfRange"
    by (simp add: generate_init_sequence_def declared_def)
qed

end
